theory Spec2Isabelle
  imports Complex_Main "HOL-Library.AList"
begin

section \<open>Latent space alignment utilities (\<^verbatim>\<open>utils/rotate.py\<close>)\<close>

text \<open>
  The module has three functions: \<^verbatim>\<open>extract_latent_coordinates\<close> averages the
  draws of every chain into one coordinate matrix per chain,
  \<^verbatim>\<open>align_latent_spaces\<close> maps every chain onto a reference chain with a
  Procrustes routine of an external library, and
  \<^verbatim>\<open>create_aligned_draws_dataframe\<close> writes the aligned coordinates back into
  a copy of the draws.

  Numbers: the module does no arithmetic of its own. It copies the numbers of the
  table, compares chain identifiers and hands columns and matrices to two library
  routines, the mean of \<^verbatim>\<open>pandas\<close> and the Procrustes analysis of \<^verbatim>\<open>scipy\<close>.
  So the type \<open>'f\<close> of the numbers is left open, and the two routines are
  parameters of the functions that call them. Chain identifiers are the values of
  the \<^verbatim>\<open>chain__\<close> column and the keys of the dictionaries; they are compared by
  equality, so a chain identifier is taken not to be NaN (which is unequal to
  itself).
\<close>

subsection \<open>Exceptions\<close>

text \<open>
  The module defines no exception class of its own. What it can raise is the
  \<^verbatim>\<open>KeyError\<close> of a failed lookup (with the key: a column label or a chain
  identifier), the \<^verbatim>\<open>IndexError\<close> of an array index out of bounds and the
  \<^verbatim>\<open>ValueError\<close> of the array routines.
\<close>

datatype 'f key = Label string | Chain 'f

datatype 'f error = KeyError "'f key" | IndexError | ValueError

subsection \<open>Parameter names: \<^verbatim>\<open>f"{prefix}[{i + 1},{d + 1}]"\<close>\<close>

definition digit_char :: "nat \<Rightarrow> char" where
  "digit_char n = ''0123456789'' ! n"

text \<open>The decimal digits of a natural number, as \<^verbatim>\<open>str\<close> prints an \<^verbatim>\<open>int\<close>.\<close>

fun str_nat :: "nat \<Rightarrow> string" where
  "str_nat n =
     (if n < 10 then [digit_char n] else str_nat (n div 10) @ [digit_char (n mod 10)])"

declare str_nat.simps [simp del]

definition param_name :: "string \<Rightarrow> nat \<Rightarrow> nat \<Rightarrow> string" where
  "param_name prefix i d =
     prefix @ ''['' @ str_nat (i + 1) @ '','' @ str_nat (d + 1) @ '']''"

subsection \<open>Arrays\<close>

text \<open>
  A two-dimensional \<^verbatim>\<open>numpy\<close> array: its shape and its entries. Only the
  entries \<open>item m i d\<close> with \<open>i < shape0 m\<close> and \<open>d < shape1 m\<close> belong to the
  array.
\<close>

record 'f ndarray =
  shape0 :: nat
  shape1 :: nat
  item :: "nat \<Rightarrow> nat \<Rightarrow> 'f"

definition same_shape :: "'f ndarray \<Rightarrow> 'f ndarray \<Rightarrow> bool" where
  "same_shape a b = (shape0 a = shape0 b \<and> shape1 a = shape1 b)"

text \<open>\<^verbatim>\<open>np.zeros((n, D))\<close>\<close>

definition zeros :: "nat \<Rightarrow> nat \<Rightarrow> 'f::zero ndarray" where
  "zeros n D = \<lparr>shape0 = n, shape1 = D, item = (\<lambda>i d. 0)\<rparr>"

text \<open>\<^verbatim>\<open>m[i, d]\<close>, for indices that are not negative.\<close>

definition getitem2 :: "'f ndarray \<Rightarrow> nat \<Rightarrow> nat \<Rightarrow> 'f error + 'f" where
  "getitem2 m i d =
     (if i < shape0 m \<and> d < shape1 m then Inr (item m i d) else Inl IndexError)"

text \<open>\<^verbatim>\<open>m[i, d] = v\<close>\<close>

definition setitem2 :: "'f ndarray \<Rightarrow> nat \<Rightarrow> nat \<Rightarrow> 'f \<Rightarrow> 'f error + 'f ndarray" where
  "setitem2 m i d v =
     (if i < shape0 m \<and> d < shape1 m
      then Inr (m\<lparr>item := (item m)(i := (item m i)(d := v))\<rparr>)
      else Inl IndexError)"

text \<open>
  \<^verbatim>\<open>np.vstack([a, b])\<close> of two-dimensional arrays: the rows of \<open>a\<close> over the rows
  of \<open>b\<close>; a \<^verbatim>\<open>ValueError\<close> when the numbers of columns differ.
\<close>

definition vstack :: "'f ndarray \<Rightarrow> 'f ndarray \<Rightarrow> 'f error + 'f ndarray" where
  "vstack a b =
     (if shape1 a = shape1 b
      then Inr \<lparr>shape0 = shape0 a + shape0 b, shape1 = shape1 a,
                item = (\<lambda>i. if i < shape0 a then item a i else item b (i - shape0 a))\<rparr>
      else Inl ValueError)"

text \<open>The slices \<^verbatim>\<open>m[:n, :]\<close> and \<^verbatim>\<open>m[n:, :]\<close>, for \<open>n\<close> not negative.\<close>

definition rows_upto :: "nat \<Rightarrow> 'f ndarray \<Rightarrow> 'f ndarray" where
  "rows_upto n m = m\<lparr>shape0 := min n (shape0 m)\<rparr>"

definition rows_from :: "nat \<Rightarrow> 'f ndarray \<Rightarrow> 'f ndarray" where
  "rows_from n m =
     \<lparr>shape0 = shape0 m - n, shape1 = shape1 m, item = (\<lambda>i. item m (i + n))\<rparr>"

subsection \<open>Dictionaries from chain identifiers to arrays\<close>

text \<open>
  A Python \<^verbatim>\<open>dict\<close> keeps its keys in insertion order: an association list
  whose keys are distinct. \<open>AList.update\<close> is the store \<^verbatim>\<open>d[k] = v\<close>: it
  replaces the value of a key that is present and appends a new key at the end.
\<close>

type_synonym 'f chain_map = "('f \<times> 'f ndarray) list"

definition lookup :: "'f chain_map \<Rightarrow> 'f \<Rightarrow> 'f error + 'f ndarray" where
  "lookup m k = (case map_of m k of None \<Rightarrow> Inl (KeyError (Chain k)) | Some v \<Rightarrow> Inr v)"

subsection \<open>Data frames\<close>

text \<open>
  A \<^verbatim>\<open>pandas.DataFrame\<close> of draws: the column labels and one row per draw. A
  row gives the value at every label; only the values at the labels of
  \<open>columns\<close> are cells of the table. Column labels are taken to be unique, as
  the sampler writes them, and every cell is a number of the type \<open>'f\<close>.
\<close>

type_synonym 'f row = "string \<Rightarrow> 'f"

record 'f dataframe =
  columns :: "string list"
  rows :: "'f row list"

text \<open>\<^verbatim>\<open>df[name]\<close>: the values of a column, a \<^verbatim>\<open>KeyError\<close> without it.\<close>

definition getitem :: "'f dataframe \<Rightarrow> string \<Rightarrow> 'f error + 'f list" where
  "getitem df name =
     (if name \<in> set (columns df) then Inr (map (\<lambda>r. r name) (rows df))
      else Inl (KeyError (Label name)))"

text \<open>\<^verbatim>\<open>Series.unique()\<close>: the distinct values, in order of first appearance.\<close>

definition unique :: "'f list \<Rightarrow> 'f list" where
  "unique xs = rev (remdups (rev xs))"

text \<open>\<^verbatim>\<open>df[df["chain__"] == chain_id]\<close>, once the chain column is known to exist.\<close>

definition select_chain :: "'f dataframe \<Rightarrow> 'f \<Rightarrow> 'f dataframe" where
  "select_chain df chain_id = df\<lparr>rows := filter (\<lambda>r. r ''chain__'' = chain_id) (rows df)\<rparr>"

text \<open>\<^verbatim>\<open>df.drop(columns=name)\<close>, for a label that is a column.\<close>

definition drop_column :: "'f dataframe \<Rightarrow> string \<Rightarrow> 'f dataframe" where
  "drop_column df name = df\<lparr>columns := removeAll name (columns df)\<rparr>"

text \<open>
  \<^verbatim>\<open>Series.mean()\<close> belongs to an external library: a function from the values
  of a column to their mean, as the library computes it (in double precision,
  leaving out NaN).
\<close>

type_synonym 'f mean_fn = "'f list \<Rightarrow> 'f"

text \<open>\<^verbatim>\<open>df.mean()\<close>: the series of the column means, indexed by the column labels.\<close>

definition df_mean :: "'f mean_fn \<Rightarrow> 'f dataframe \<Rightarrow> (string \<rightharpoonup> 'f)" where
  "df_mean mean df =
     (\<lambda>name. if name \<in> set (columns df) then Some (mean (map (\<lambda>r. r name) (rows df)))
             else None)"

subsection \<open>\<^verbatim>\<open>extract_latent_coordinates\<close>\<close>

text \<open>
  The two nested loops that fill the matrix of one chain. The right-hand side
  \<^verbatim>\<open>mean_params[param_name]\<close> is read first and raises a \<^verbatim>\<open>KeyError\<close> when
  the series has no such label. The numbers of entities and of dimensions are
  natural numbers.
\<close>

fun fill_dims ::
  "(string \<rightharpoonup> 'f) \<Rightarrow> string \<Rightarrow> nat \<Rightarrow> nat list \<Rightarrow> 'f ndarray \<Rightarrow> 'f error + 'f ndarray" where
  "fill_dims mean_params prefix i [] matrix = Inr matrix"
| "fill_dims mean_params prefix i (d # ds) matrix =
     (case mean_params (param_name prefix i d) of
        None \<Rightarrow> Inl (KeyError (Label (param_name prefix i d)))
      | Some v \<Rightarrow>
          (case setitem2 matrix i d v of
             Inl e \<Rightarrow> Inl e
           | Inr matrix' \<Rightarrow> fill_dims mean_params prefix i ds matrix'))"

fun fill_entities ::
  "(string \<rightharpoonup> 'f) \<Rightarrow> string \<Rightarrow> nat list \<Rightarrow> nat \<Rightarrow> 'f ndarray \<Rightarrow> 'f error + 'f ndarray" where
  "fill_entities mean_params prefix [] D matrix = Inr matrix"
| "fill_entities mean_params prefix (i # is) D matrix =
     (case fill_dims mean_params prefix i [0..<D] matrix of
        Inl e \<Rightarrow> Inl e
      | Inr matrix' \<Rightarrow> fill_entities mean_params prefix is D matrix')"

text \<open>The loop over the chains, with the dictionary \<^verbatim>\<open>chain_means\<close> built so far.\<close>

fun extract_chains ::
  "'f mean_fn \<Rightarrow> 'f::zero dataframe \<Rightarrow> nat \<Rightarrow> nat \<Rightarrow> string \<Rightarrow> 'f list \<Rightarrow> 'f chain_map \<Rightarrow> 'f error + 'f chain_map" where
  "extract_chains mean df_draws n_entities D prefix [] chain_means = Inr chain_means"
| "extract_chains mean df_draws n_entities D prefix (chain_id # chain_ids) chain_means =
     (let chain_df = select_chain df_draws chain_id;
          mean_params = df_mean mean (drop_column chain_df ''chain__'')
      in case fill_entities mean_params prefix [0..<n_entities] D (zeros n_entities D) of
           Inl e \<Rightarrow> Inl e
         | Inr matrix \<Rightarrow>
             extract_chains mean df_draws n_entities D prefix chain_ids
               (AList.update chain_id matrix chain_means))"

definition extract_latent_coordinates ::
  "'f mean_fn \<Rightarrow> 'f::zero dataframe \<Rightarrow> nat \<Rightarrow> nat \<Rightarrow> string \<Rightarrow> 'f error + 'f chain_map" where
  "extract_latent_coordinates mean df_draws n_entities D prefix =
     (case getitem df_draws ''chain__'' of
        Inl e \<Rightarrow> Inl e
      | Inr chain_col \<Rightarrow> extract_chains mean df_draws n_entities D prefix (unique chain_col) [])"

subsection \<open>\<^verbatim>\<open>align_latent_spaces\<close>\<close>

text \<open>
  \<^verbatim>\<open>scipy.spatial.procrustes\<close> belongs to an external library, so it is a
  parameter of the alignment: a function from the reference and the current matrix
  to the triple of the standardised reference, the aligned matrix and the disparity,
  or to the exception it raises.
\<close>

type_synonym 'f procrustes_fn = "'f ndarray \<Rightarrow> 'f ndarray \<Rightarrow> 'f error + ('f ndarray \<times> 'f ndarray \<times> 'f)"

text \<open>
  What the library documents about the shape of its result: the aligned matrix has
  the shape of the matrix it was computed from.
\<close>

definition keeps_shape :: "'f procrustes_fn \<Rightarrow> bool" where
  "keeps_shape procrustes =
     (\<forall>a b m1 m2 disparity. procrustes a b = Inr (m1, m2, disparity) \<longrightarrow> same_shape m2 b)"

text \<open>
  The loop over \<^verbatim>\<open>person_coords.keys()\<close>, with the two dictionaries built so far.
  The message printed for every chain is left out: it changes neither the result nor
  the control flow.
\<close>

fun align_chains ::
  "'f procrustes_fn \<Rightarrow> 'f chain_map \<Rightarrow> 'f chain_map \<Rightarrow> 'f \<Rightarrow> 'f ndarray \<Rightarrow> nat \<Rightarrow> 'f list \<Rightarrow>
   'f chain_map \<times> 'f chain_map \<Rightarrow> 'f error + 'f chain_map \<times> 'f chain_map" where
  "align_chains procrustes person_coords item_coords ref_chain_id reference_matrix n_persons
     [] aligned = Inr aligned"
| "align_chains procrustes person_coords item_coords ref_chain_id reference_matrix n_persons
     (chain_id # chain_ids) (aligned_person_coords, aligned_item_coords) =
     (if chain_id = ref_chain_id
      then align_chains procrustes person_coords item_coords ref_chain_id reference_matrix
             n_persons chain_ids (aligned_person_coords, aligned_item_coords)
      else
        (case lookup person_coords chain_id of
           Inl e \<Rightarrow> Inl e
         | Inr p \<Rightarrow>
        (case lookup item_coords chain_id of
           Inl e \<Rightarrow> Inl e
         | Inr q \<Rightarrow>
        (case vstack p q of
           Inl e \<Rightarrow> Inl e
         | Inr current_matrix \<Rightarrow>
        (case procrustes reference_matrix current_matrix of
           Inl e \<Rightarrow> Inl e
         | Inr (mtx1, aligned_matrix, disparity) \<Rightarrow>
             align_chains procrustes person_coords item_coords ref_chain_id reference_matrix
               n_persons chain_ids
               (AList.update chain_id (rows_upto n_persons aligned_matrix) aligned_person_coords,
                AList.update chain_id (rows_from n_persons aligned_matrix) aligned_item_coords))))))"

definition align_latent_spaces ::
  "'f procrustes_fn \<Rightarrow> 'f chain_map \<Rightarrow> 'f chain_map \<Rightarrow> 'f \<Rightarrow> 'f error + 'f chain_map \<times> 'f chain_map" where
  "align_latent_spaces procrustes person_coords item_coords ref_chain_id =
     (case lookup person_coords ref_chain_id of
        Inl e \<Rightarrow> Inl e
      | Inr person_ref \<Rightarrow>
     (case lookup item_coords ref_chain_id of
        Inl e \<Rightarrow> Inl e
      | Inr item_ref \<Rightarrow>
     (case vstack person_ref item_ref of
        Inl e \<Rightarrow> Inl e
      | Inr reference_matrix \<Rightarrow>
          align_chains procrustes person_coords item_coords ref_chain_id reference_matrix
            (shape0 person_ref) (map fst person_coords)
            ([(ref_chain_id, person_ref)], [(ref_chain_id, item_ref)]))))"

subsection \<open>\<^verbatim>\<open>create_aligned_draws_dataframe\<close>\<close>

text \<open>
  The function copies the table it is given and assigns into the copy. To tell the
  copy from the original, data frames live in a store: a reference is a position in
  the list of the objects allocated so far.
\<close>

type_synonym ref = nat

type_synonym 'f heap = "'f dataframe list"

text \<open>\<^verbatim>\<open>df.copy()\<close>: a new object with the same contents.\<close>

definition df_copy :: "'f heap \<Rightarrow> ref \<Rightarrow> 'f heap \<times> ref" where
  "df_copy h r = (h @ [h ! r], length h)"

text \<open>
  \<^verbatim>\<open>df.loc[mask, name] = v\<close> on the object at \<open>a\<close>: the rows the mask selects
  get the value \<open>v\<close> in column \<open>name\<close>.
\<close>

definition set_where :: "'f dataframe \<Rightarrow> bool list \<Rightarrow> string \<Rightarrow> 'f \<Rightarrow> 'f dataframe" where
  "set_where df chain_mask name v =
     df\<lparr>rows := map2 (\<lambda>b r. if b then r(name := v) else r) chain_mask (rows df)\<rparr>"

definition loc_assign :: "'f heap \<Rightarrow> ref \<Rightarrow> bool list \<Rightarrow> string \<Rightarrow> 'f \<Rightarrow> 'f heap" where
  "loc_assign h a chain_mask name v = h[a := set_where (h ! a) chain_mask name v]"

text \<open>
  The loops return the store they reached and the exception, if one was raised.
  \<^verbatim>\<open>coords[i, d]\<close> is read only when the column exists.
\<close>

fun replace_dims ::
  "'f heap \<Rightarrow> ref \<Rightarrow> bool list \<Rightarrow> string \<Rightarrow> 'f ndarray \<Rightarrow> nat \<Rightarrow> nat list \<Rightarrow> 'f heap \<times> 'f error option" where
  "replace_dims h aligned_draws chain_mask prefix coords i [] = (h, None)"
| "replace_dims h aligned_draws chain_mask prefix coords i (d # ds) =
     (if param_name prefix i d \<in> set (columns (h ! aligned_draws))
      then
        (case getitem2 coords i d of
           Inl e \<Rightarrow> (h, Some e)
         | Inr v \<Rightarrow>
             replace_dims (loc_assign h aligned_draws chain_mask (param_name prefix i d) v)
               aligned_draws chain_mask prefix coords i ds)
      else replace_dims h aligned_draws chain_mask prefix coords i ds)"

fun replace_entities ::
  "'f heap \<Rightarrow> ref \<Rightarrow> bool list \<Rightarrow> string \<Rightarrow> 'f ndarray \<Rightarrow> nat list \<Rightarrow> nat \<Rightarrow> 'f heap \<times> 'f error option" where
  "replace_entities h aligned_draws chain_mask prefix coords [] D = (h, None)"
| "replace_entities h aligned_draws chain_mask prefix coords (i # is) D =
     (case replace_dims h aligned_draws chain_mask prefix coords i [0..<D] of
        (h', Some e) \<Rightarrow> (h', Some e)
      | (h', None) \<Rightarrow> replace_entities h' aligned_draws chain_mask prefix coords is D)"

text \<open>The loop over the items of a dictionary of aligned coordinates.\<close>

fun replace_chains ::
  "'f heap \<Rightarrow> ref \<Rightarrow> string \<Rightarrow> 'f chain_map \<Rightarrow> nat \<Rightarrow> 'f heap \<times> 'f error option" where
  "replace_chains h aligned_draws prefix [] D = (h, None)"
| "replace_chains h aligned_draws prefix ((chain_id, coords) # rest) D =
     (case getitem (h ! aligned_draws) ''chain__'' of
        Inl e \<Rightarrow> (h, Some e)
      | Inr chain_col \<Rightarrow>
          (case replace_entities h aligned_draws (map (\<lambda>x. x = chain_id) chain_col) prefix
                  coords [0..<shape0 coords] D of
             (h', Some e) \<Rightarrow> (h', Some e)
           | (h', None) \<Rightarrow> replace_chains h' aligned_draws prefix rest D))"

text \<open>
  The result is the store after the call and either the exception or the reference
  to the new table.
\<close>

definition create_aligned_draws_dataframe ::
  "'f heap \<Rightarrow> ref \<Rightarrow> 'f chain_map \<Rightarrow> 'f chain_map \<Rightarrow> nat \<Rightarrow> 'f heap \<times> ('f error + ref)" where
  "create_aligned_draws_dataframe h original_draws aligned_person_coords aligned_item_coords D =
     (case df_copy h original_draws of
        (h1, aligned_draws) \<Rightarrow>
          (case replace_chains h1 aligned_draws ''xi'' aligned_person_coords D of
             (h2, Some e) \<Rightarrow> (h2, Inl e)
           | (h2, None) \<Rightarrow>
               (case replace_chains h2 aligned_draws ''zt_centered'' aligned_item_coords D of
                  (h3, Some e) \<Rightarrow> (h3, Inl e)
                | (h3, None) \<Rightarrow> (h3, Inr aligned_draws))))"

subsection \<open>Double precision\<close>

text \<open>
  The numbers of a table are IEEE 754 doubles: a finite double is a rational number
  \<open>m * 2 ^ e\<close> with \<open>\<bar>m\<bar> < 2 ^ 53\<close> and \<open>- 1074 \<le> e \<le> 971\<close>; besides them there are
  the two infinities and NaN. The two zeros of the format, which are equal under
  \<^verbatim>\<open>==\<close>, are one value here.
\<close>

datatype float64 = Finite rat | PInf | NInf | NaN

instantiation float64 :: zero
begin

definition zero_float64 :: float64 where
  "zero_float64 = Finite 0"

instance ..

end

text \<open>The number of binary digits of a positive integer, and \<open>2 ^ k\<close> for \<open>k \<ge> 0\<close>.\<close>

function bitlen :: "int \<Rightarrow> int" where
  "bitlen n = (if n \<le> 0 then 0 else 1 + bitlen (n div 2))"
  by pat_completeness auto
termination
  by (relation "measure nat") auto

declare bitlen.simps [simp del]

function two_to :: "int \<Rightarrow> int" where
  "two_to k =
     (if k \<le> 0 then 1
      else (let h = two_to (k div 2) in if even k then h * h else 2 * h * h))"
  by pat_completeness auto
termination
  by (relation "measure nat") auto

declare two_to.simps [simp del]

definition pow2 :: "int \<Rightarrow> rat" where
  "pow2 k = of_int (two_to k) / of_int (two_to (- k))"

text \<open>
  For positive integers \<open>p\<close> and \<open>q\<close>: the \<open>e\<close> with \<open>2 ^ e \<le> p / q < 2 ^ (e + 1)\<close>;
  the quotient lies between \<open>2 ^ (d - 1)\<close> and \<open>2 ^ (d + 1)\<close> for the difference
  \<open>d\<close> of the numbers of digits.
\<close>

definition ilog :: "int \<Rightarrow> int \<Rightarrow> int" where
  "ilog p q =
     (let d = bitlen p - bitlen q
      in if q * two_to d \<le> p * two_to (- d) then d else d - 1)"

text \<open>The integer nearest to \<open>a / b\<close>, the even one of two that are equally near.\<close>

definition round_div :: "int \<Rightarrow> int \<Rightarrow> int" where
  "round_div a b =
     (let f = a div b; r = a mod b
      in if 2 * r < b then f else if b < 2 * r then f + 1 else if even f then f else f + 1)"

text \<open>
  Rounding to nearest, ties to even: a number \<open>x\<close> with
  \<open>2 ^ e \<le> \<bar>x\<bar> < 2 ^ (e + 1)\<close> is rounded to a multiple \<open>m * 2 ^ s\<close> of
  \<open>2 ^ s\<close>, where \<open>s = e - 52\<close> and at least \<open>- 1074\<close>. A result of magnitude
  \<open>2 ^ 1024\<close> or more, that is \<open>m\<close> of more than \<open>1024 - s\<close> digits, is the
  infinity of its sign.
\<close>

definition round64 :: "rat \<Rightarrow> float64" where
  "round64 x =
     (if x = 0 then Finite 0
      else
        (case quotient_of \<bar>x\<bar> of
           (p, q) \<Rightarrow>
             (let s = max (ilog p q - 52) (- 1074);
                  m = round_div (p * two_to (- s)) (q * two_to s)
              in if 1024 < bitlen m + s then (if 0 < x then PInf else NInf)
                 else Finite ((if 0 < x then 1 else - 1) * of_int m * pow2 s))))"

text \<open>Addition, and division by a count.\<close>

fun fadd :: "float64 \<Rightarrow> float64 \<Rightarrow> float64" where
  "fadd (Finite x) (Finite y) = round64 (x + y)"
| "fadd NaN y = NaN"
| "fadd x NaN = NaN"
| "fadd PInf NInf = NaN"
| "fadd NInf PInf = NaN"
| "fadd PInf y = PInf"
| "fadd NInf y = NInf"
| "fadd x PInf = PInf"
| "fadd x NInf = NInf"

fun fdiv_count :: "float64 \<Rightarrow> nat \<Rightarrow> float64" where
  "fdiv_count x 0 = NaN"
| "fdiv_count (Finite x) n = round64 (x / of_nat n)"
| "fdiv_count x n = x"

text \<open>
  The mean of a short column as \<^verbatim>\<open>pandas\<close> computes it: the values that are not NaN
  are added in order, each sum rounded, and the sum is divided by their number;
  NaN when there is none. (Long columns are added in blocks; the examples below have
  at most three values.)
\<close>

definition mean64 :: "float64 mean_fn" where
  "mean64 xs =
     (let ys = filter (\<lambda>x. x \<noteq> NaN) xs
      in fdiv_count (foldl fadd (Finite 0) ys) (length ys))"

subsection \<open>Notions used in the statements below\<close>

text \<open>
  Every matrix of the output dictionary belongs to a chain of the input dictionary and
  has the shape of that chain's input matrix.
\<close>

definition shapes_kept :: "'f chain_map \<Rightarrow> 'f chain_map \<Rightarrow> bool" where
  "shapes_kept out inp =
     (\<forall>c m. map_of out c = Some m \<longrightarrow> (\<exists>m0. map_of inp c = Some m0 \<and> same_shape m m0))"

text \<open>
  For examples: the array of a non-empty list of rows of equal length, as
  \<^verbatim>\<open>np.array\<close> builds it, and a stand-in for the Procrustes routine that answers
  with the reference itself and disparity 0 when the two shapes agree.
\<close>

definition array2 :: "'f list list \<Rightarrow> 'f ndarray" where
  "array2 rs = \<lparr>shape0 = length rs, shape1 = length (hd rs), item = (\<lambda>i d. rs ! i ! d)\<rparr>"

definition perfect_fit :: "real procrustes_fn" where
  "perfect_fit a b = (if same_shape a b then Inr (a, a, 0) else Inl ValueError)"

text \<open>The body of the loop raises nothing for the chain \<open>c\<close>.\<close>

definition aligns ::
  "'f procrustes_fn \<Rightarrow> 'f chain_map \<Rightarrow> 'f chain_map \<Rightarrow> 'f ndarray \<Rightarrow> 'f \<Rightarrow> bool" where
  "aligns procrustes person_coords item_coords reference_matrix c =
     (\<exists>p q current_matrix res.
        map_of person_coords c = Some p \<and> map_of item_coords c = Some q \<and>
        vstack p q = Inr current_matrix \<and>
        procrustes reference_matrix current_matrix = Inr res)"











text \<open>The values of a column in the rows of one chain, in the order of the rows.\<close>

definition chain_values :: "'f dataframe \<Rightarrow> string \<Rightarrow> 'f \<Rightarrow> 'f list" where
  "chain_values df name chain_id =
     map (\<lambda>r. r name) (filter (\<lambda>r. r ''chain__'' = chain_id) (rows df))"

text \<open>For examples: the row that has the given values at the given labels.\<close>

definition row_of :: "(string \<times> 'f) list \<Rightarrow> 'f::zero row" where
  "row_of cells = (\<lambda>name. case map_of cells name of None \<Rightarrow> 0 | Some v \<Rightarrow> v)"






text \<open>
  What the loops of \<^verbatim>\<open>create_aligned_draws_dataframe\<close> do to one row of the table
  with columns \<open>cols\<close>: the assignments of one entity, of all entities of one chain,
  and of all chains of a dictionary, the last only on the rows of the chain.
\<close>

fun dims_row :: "string list \<Rightarrow> string \<Rightarrow> 'f ndarray \<Rightarrow> nat \<Rightarrow> nat list \<Rightarrow> 'f row \<Rightarrow> 'f row" where
  "dims_row cols prefix coords i [] r = r"
| "dims_row cols prefix coords i (d # ds) r =
     dims_row cols prefix coords i ds
       (if param_name prefix i d \<in> set cols
        then r(param_name prefix i d := item coords i d) else r)"

fun ents_row :: "string list \<Rightarrow> string \<Rightarrow> 'f ndarray \<Rightarrow> nat list \<Rightarrow> nat \<Rightarrow> 'f row \<Rightarrow> 'f row" where
  "ents_row cols prefix coords [] D r = r"
| "ents_row cols prefix coords (i # is) D r =
     ents_row cols prefix coords is D (dims_row cols prefix coords i [0..<D] r)"

fun chains_row :: "string list \<Rightarrow> string \<Rightarrow> 'f chain_map \<Rightarrow> nat \<Rightarrow> 'f row \<Rightarrow> 'f row" where
  "chains_row cols prefix [] D r = r"
| "chains_row cols prefix ((chain_id, coords) # rest) D r =
     chains_row cols prefix rest D
       (if r ''chain__'' = chain_id
        then ents_row cols prefix coords [0..<shape0 coords] D r else r)"

text \<open>
  The store \<open>h'\<close> differs from \<open>h\<close> at most in the rows of the table at \<open>a\<close>:
  row \<open>k\<close> has become \<open>F k\<close> of what it was. \<open>framed\<close> is the part of this that
  holds whatever happened to the rows.
\<close>

definition framed :: "'f heap \<Rightarrow> ref \<Rightarrow> 'f heap \<Rightarrow> bool" where
  "framed h a h' =
     (length h' = length h \<and> (\<forall>r. r \<noteq> a \<longrightarrow> h' ! r = h ! r) \<and>
      columns (h' ! a) = columns (h ! a) \<and>
      length (rows (h' ! a)) = length (rows (h ! a)))"

definition updated :: "'f heap \<Rightarrow> ref \<Rightarrow> (nat \<Rightarrow> 'f row \<Rightarrow> 'f row) \<Rightarrow> 'f heap \<Rightarrow> bool" where
  "updated h a F h' =
     (framed h a h' \<and>
      (\<forall>k<length (rows (h ! a)). rows (h' ! a) ! k = F k (rows (h ! a) ! k)))"

text \<open>
  For examples: three draws of three chains with one person and one item in one
  dimension and a column that is no coordinate, and aligned coordinates for the chains
  1 and 2 in two dimensions.
\<close>

definition demo_draws :: "real dataframe" where
  "demo_draws =
     \<lparr>columns = [''chain__'', ''xi[1,1]'', ''zt_centered[1,1]'', ''lp__''],
      rows = [row_of [(''chain__'', 1), (''xi[1,1]'', 4), (''zt_centered[1,1]'', 5), (''lp__'', - 3)],
              row_of [(''chain__'', 2), (''xi[1,1]'', 6), (''zt_centered[1,1]'', 7), (''lp__'', - 2)],
              row_of [(''chain__'', 3), (''xi[1,1]'', 8), (''zt_centered[1,1]'', 9), (''lp__'', - 1)]]\<rparr>"

definition demo_person :: "real chain_map" where
  "demo_person = [(1, array2 [[10, 11]]), (2, array2 [[12, 13]])]"

definition demo_item :: "real chain_map" where
  "demo_item = [(1, array2 [[20, 21]]), (2, array2 [[22, 23]])]"

section \<open>Lemmas\<close>

subsection \<open>Double precision\<close>

lemma two_to_eq: "two_to k = 2 ^ nat k"
proof (induction k rule: two_to.induct)
  case (1 k)
  show ?case
  proof (cases "k \<le> 0")
    case True
    then show ?thesis by (simp add: two_to.simps)
  next
    case False
    then have h: "two_to (k div 2) = 2 ^ nat (k div 2)" by (rule 1)
    have n: "nat k = nat (k div 2) + nat (k div 2) + (if even k then 0 else 1)"
    proof (cases "even k")
      case True
      then obtain j where "k = 2 * j" ..
      with False show ?thesis by (simp add: nat_mult_distrib)
    next
      case odd: False
      then obtain j where "k = 2 * j + 1" by (rule oddE)
      with False odd show ?thesis by (simp add: nat_add_distrib nat_mult_distrib)
    qed
    have "(2::int) ^ nat k = 2 ^ nat (k div 2) * 2 ^ nat (k div 2) * (if even k then 1 else 2)"
      by (subst n) (simp add: power_add)
    with False h show ?thesis by (simp add: two_to.simps [of k] Let_def)
  qed
qed

lemma bitlen_nonneg: "0 \<le> bitlen n"
proof (induction n rule: bitlen.induct)
  case (1 n)
  then show ?case by (subst bitlen.simps) simp
qed

lemma bitlen_bounds: "0 < n \<Longrightarrow> 2 ^ nat (bitlen n - 1) \<le> n \<and> n < 2 ^ nat (bitlen n)"
proof (induction n rule: bitlen.induct)
  case (1 n)
  from "1.prems" have nn: "\<not> n \<le> 0" by simp
  have b: "bitlen n = 1 + bitlen (n div 2)" using nn by (simp add: bitlen.simps [of n])
  show ?case
  proof (cases "n = 1")
    case True
    then show ?thesis by (simp add: bitlen.simps [of 1] bitlen.simps [of 0])
  next
    case False
    with "1.prems" have pos: "0 < n div 2" by presburger
    note ih = "1.IH" [OF nn pos]
    from pos have "bitlen (n div 2) = 1 + bitlen (n div 2 div 2)"
      by (simp add: bitlen.simps [of "n div 2"])
    with bitlen_nonneg [of "n div 2 div 2"] have bp: "0 < bitlen (n div 2)" by simp
    then have e: "nat (bitlen n) = Suc (nat (bitlen (n div 2)))"
      and e': "nat (bitlen n - 1) = Suc (nat (bitlen (n div 2) - 1))"
      using b by simp_all
    from ih have "2 * 2 ^ nat (bitlen (n div 2) - 1) \<le> n" and "n < 2 * 2 ^ nat (bitlen (n div 2))"
      by presburger+
    then show ?thesis unfolding e e' by simp
  qed
qed




lemma mean64_nan: "mean64 [Finite 1, NaN, Finite 2] = Finite (3 / 2)"
  by code_simp

subsection \<open>Parameter names\<close>

lemma digit_char_inj:
  "a < 10 \<Longrightarrow> b < 10 \<Longrightarrow> digit_char a = digit_char b \<Longrightarrow> a = b"
proof -
  assume a: "a < 10" and b: "b < 10" and e: "digit_char a = digit_char b"
  have d: "distinct ''0123456789''" by simp
  have "length ''0123456789'' = 10" by simp
  with a b e d show "a = b"
    unfolding digit_char_def by (metis nth_eq_iff_index_eq)
qed

lemma digit_char_mem: "a < 10 \<Longrightarrow> digit_char a \<in> set ''0123456789''"
  unfolding digit_char_def by (rule nth_mem) simp

lemma str_nat_digits: "set (str_nat n) \<subseteq> set ''0123456789''"
proof (induction n rule: str_nat.induct)
  case (1 n)
  show ?case
  proof (cases "n < 10")
    case True
    then show ?thesis using digit_char_mem [of n] by (subst str_nat.simps) simp
  next
    case False
    have "n mod 10 < 10" by simp
    then have "digit_char (n mod 10) \<in> set ''0123456789''" by (rule digit_char_mem)
    with False 1 show ?thesis by (subst str_nat.simps) simp
  qed
qed

lemma str_nat_nonempty: "str_nat n \<noteq> []"
  by (subst str_nat.simps) simp

lemma str_nat_inj: "str_nat a = str_nat b \<Longrightarrow> a = b"
proof (induction a arbitrary: b rule: str_nat.induct)
  case (1 a)
  show ?case
  proof (cases "a < 10")
    case a: True
    show ?thesis
    proof (cases "b < 10")
      case True
      with a "1.prems" show ?thesis
        by (simp add: str_nat.simps [of a] str_nat.simps [of b] digit_char_inj)
    next
      case False
      with a "1.prems" show ?thesis
        using str_nat_nonempty [of "b div 10"]
        by (simp add: str_nat.simps [of a] str_nat.simps [of b])
    qed
  next
    case a: False
    show ?thesis
    proof (cases "b < 10")
      case True
      with a "1.prems" show ?thesis
        using str_nat_nonempty [of "a div 10"]
        by (simp add: str_nat.simps [of a] str_nat.simps [of b])
    next
      case False
      with a "1.prems" have e: "str_nat (a div 10) = str_nat (b div 10)"
        and m: "digit_char (a mod 10) = digit_char (b mod 10)"
        by (simp_all add: str_nat.simps [of a] str_nat.simps [of b])
      from "1.IH" [OF a e] have "a div 10 = b div 10" .
      moreover from m have "a mod 10 = b mod 10" by (intro digit_char_inj) simp_all
      ultimately show ?thesis by (metis div_mult_mod_eq)
    qed
  qed
qed

lemma split_at_sep:
  "c \<notin> set xs \<Longrightarrow> c \<notin> set xs' \<Longrightarrow> xs @ c # ys = xs' @ c # ys' \<Longrightarrow> xs = xs' \<and> ys = ys'"
proof (induction xs arbitrary: xs')
  case Nil
  then show ?case by (cases xs') auto
next
  case (Cons x xs)
  then show ?case by (cases xs') auto
qed

lemma param_name_inj:
  assumes "param_name prefix i d = param_name prefix i' d'"
  shows "i = i' \<and> d = d'"
proof -
  have c: "CHR '','' \<notin> set (str_nat n)" for n
    using str_nat_digits [of n] by auto
  from assms have "str_nat (i + 1) @ CHR '','' # (str_nat (d + 1) @ '']'')
      = str_nat (i' + 1) @ CHR '','' # (str_nat (d' + 1) @ '']'')"
    by (simp add: param_name_def)
  from split_at_sep [OF c c this] have "str_nat (i + 1) = str_nat (i' + 1)"
    and "str_nat (d + 1) = str_nat (d' + 1)" by simp_all
  then show ?thesis by (auto dest: str_nat_inj)
qed

lemma param_name_not_chain: "param_name prefix i d \<noteq> ''chain__''"
proof
  assume "param_name prefix i d = ''chain__''"
  then have "last (param_name prefix i d) = last ''chain__''" by simp
  then show False by (simp add: param_name_def)
qed

lemma param_name_xi_zt: "param_name ''xi'' i d \<noteq> param_name ''zt_centered'' i' d'"
  by (simp add: param_name_def)

subsection \<open>The alignment loop\<close>

lemma lookup_Inr: "lookup m k = Inr v \<longleftrightarrow> map_of m k = Some v"
  by (simp add: lookup_def split: option.splits)

lemma lookup_Inl: "lookup m k = Inl e \<longleftrightarrow> map_of m k = None \<and> e = KeyError (Chain k)"
  by (auto simp: lookup_def split: option.splits)

lemma map_of_None_keys: "map_of m k = None \<longleftrightarrow> k \<notin> fst ` set m"
  by (simp add: map_of_eq_None_iff)

lemma align_chains_ref:
  "align_chains P pc ic r R n cs (ap, ai) = Inr (ap', ai') \<Longrightarrow>
   map_of ap' r = map_of ap r \<and> map_of ai' r = map_of ai r"
proof (induction cs arbitrary: ap ai)
  case Nil
  then show ?case by simp
next
  case (Cons c cs)
  show ?case
  proof (cases "c = r")
    case True
    with Cons show ?thesis by simp
  next
    case False
    with Cons.prems obtain m2 where
      rest: "align_chains P pc ic r R n cs
          (AList.update c (rows_upto n m2) ap, AList.update c (rows_from n m2) ai) = Inr (ap', ai')"
      by (auto split: sum.splits prod.splits)
    from Cons.IH [OF rest] False show ?thesis
      by (simp add: AList.update_conv')
  qed
qed

lemma align_chains_keys:
  "align_chains P pc ic r R n cs (ap, ai) = Inr (ap', ai') \<Longrightarrow>
   fst ` set ap' = fst ` set ap \<union> (set cs - {r}) \<and>
   fst ` set ai' = fst ` set ai \<union> (set cs - {r})"
proof (induction cs arbitrary: ap ai)
  case Nil
  then show ?case by simp
next
  case (Cons c cs)
  show ?case
  proof (cases "c = r")
    case True
    with Cons show ?thesis by auto
  next
    case False
    with Cons.prems obtain m2 where
      rest: "align_chains P pc ic r R n cs
          (AList.update c (rows_upto n m2) ap, AList.update c (rows_from n m2) ai) = Inr (ap', ai')"
      by (auto split: sum.splits prod.splits)
    from Cons.IH [OF rest] False show ?thesis
      by (auto simp: AList.dom_update)
  qed
qed

lemma align_chains_missing:
  "c \<in> set cs \<Longrightarrow> c \<noteq> r \<Longrightarrow> map_of ic c = None \<Longrightarrow>
   \<exists>e. align_chains P pc ic r R n cs (ap, ai) = Inl e"
proof (induction cs arbitrary: ap ai)
  case Nil
  then show ?case by simp
next
  case (Cons x cs)
  show ?case
  proof (cases "x = c")
    case True
    with Cons.prems show ?thesis
      by (simp add: lookup_def split: sum.splits option.splits)
  next
    case False
    with Cons.prems have "c \<in> set cs" by simp
    from Cons.IH [OF this Cons.prems(2,3)] show ?thesis
      by (auto split: sum.splits prod.splits)
  qed
qed

lemma shapes_kept_update:
  "shapes_kept out inp \<Longrightarrow> map_of inp c = Some m0 \<Longrightarrow> same_shape m m0 \<Longrightarrow>
   shapes_kept (AList.update c m out) inp"
  by (simp add: shapes_kept_def AList.update_conv')

lemma split_shapes:
  assumes k: "keeps_shape P" and v: "vstack p q = Inr cur"
    and P: "P R cur = Inr (m1, m2, dis)" and n: "shape0 p = n"
  shows "same_shape (rows_upto n m2) p" and "same_shape (rows_from n m2) q"
proof -
  from k P have s: "same_shape m2 cur" unfolding keeps_shape_def by blast
  from v have c: "shape0 cur = shape0 p + shape0 q" "shape1 cur = shape1 p" "shape1 p = shape1 q"
    by (auto simp: vstack_def split: if_splits)
  from s c n show "same_shape (rows_upto n m2) p"
    by (simp add: same_shape_def rows_upto_def)
  from s c n show "same_shape (rows_from n m2) q"
    by (simp add: same_shape_def rows_from_def)
qed

lemma align_chains_shapes:
  assumes k: "keeps_shape P"
    and n: "\<forall>c p. map_of pc c = Some p \<longrightarrow> shape0 p = n"
  shows "align_chains P pc ic r R n cs (ap, ai) = Inr (ap', ai') \<Longrightarrow>
     shapes_kept ap pc \<Longrightarrow> shapes_kept ai ic \<Longrightarrow>
     shapes_kept ap' pc \<and> shapes_kept ai' ic"
proof (induction cs arbitrary: ap ai)
  case Nil
  then show ?case by simp
next
  case (Cons c cs)
  show ?case
  proof (cases "c = r")
    case True
    with Cons show ?thesis by simp
  next
    case False
    with Cons.prems(1) obtain p q cur m1 m2 dis where
      p: "map_of pc c = Some p" and q: "map_of ic c = Some q"
      and v: "vstack p q = Inr cur" and P: "P R cur = Inr (m1, m2, dis)"
      and rest: "align_chains P pc ic r R n cs
          (AList.update c (rows_upto n m2) ap, AList.update c (rows_from n m2) ai) = Inr (ap', ai')"
      by (auto simp: lookup_Inr split: sum.splits prod.splits)
    from n p have "shape0 p = n" by blast
    note s = split_shapes [OF k v P this]
    show ?thesis
      by (rule Cons.IH [OF rest])
        (simp_all add: shapes_kept_update Cons.prems p q s)
  qed
qed

lemma keeps_shape_perfect_fit: "keeps_shape perfect_fit"
  by (auto simp: keeps_shape_def perfect_fit_def same_shape_def split: if_splits)

lemma vstack_rows:
  assumes "vstack p q = Inr cur"
  shows "shape0 cur = shape0 p + shape0 q" and "shape1 cur = shape1 p" and "shape1 q = shape1 p"
    and "\<forall>i<shape0 p. item cur i = item p i"
    and "\<forall>i<shape0 q. item cur (shape0 p + i) = item q i"
  using assms by (auto simp: vstack_def split: if_splits)

lemma align_latent_spaces_Inr:
  assumes "align_latent_spaces P pc ic r = Inr (ap, ai)"
  obtains pr ir R where "map_of pc r = Some pr" and "map_of ic r = Some ir"
    and "vstack pr ir = Inr R"
    and "align_chains P pc ic r R (shape0 pr) (map fst pc) ([(r, pr)], [(r, ir)]) = Inr (ap, ai)"
  using assms
  by (auto simp: align_latent_spaces_def lookup_def split: sum.splits option.splits)

lemma align_chains_other:
  "align_chains P pc ic r R n cs (ap, ai) = Inr (ap', ai') \<Longrightarrow> c \<notin> set cs \<or> c = r \<Longrightarrow>
   map_of ap' c = map_of ap c \<and> map_of ai' c = map_of ai c"
proof (induction cs arbitrary: ap ai)
  case Nil
  then show ?case by simp
next
  case (Cons x cs)
  show ?case
  proof (cases "x = r")
    case True
    with Cons show ?thesis by auto
  next
    case False
    with Cons.prems(1) obtain m2 where
      rest: "align_chains P pc ic r R n cs
          (AList.update x (rows_upto n m2) ap, AList.update x (rows_from n m2) ai) = Inr (ap', ai')"
      by (auto split: sum.splits prod.splits)
    from Cons.prems(2) False have "c \<notin> set cs \<or> c = r" and "c \<noteq> x" by auto
    with Cons.IH [OF rest] show ?thesis by (simp add: AList.update_conv')
  qed
qed

lemma align_chains_entry:
  "align_chains P pc ic r R n cs (ap, ai) = Inr (ap', ai') \<Longrightarrow> c \<in> set cs \<Longrightarrow> c \<noteq> r \<Longrightarrow>
   \<exists>p q cur m1 m2 dis.
     map_of pc c = Some p \<and> map_of ic c = Some q \<and> vstack p q = Inr cur \<and>
     P R cur = Inr (m1, m2, dis) \<and>
     map_of ap' c = Some (rows_upto n m2) \<and> map_of ai' c = Some (rows_from n m2)"
proof (induction cs arbitrary: ap ai)
  case Nil
  then show ?case by simp
next
  case (Cons x cs)
  show ?case
  proof (cases "x = r")
    case True
    with Cons.prems have "align_chains P pc ic r R n cs (ap, ai) = Inr (ap', ai')"
      and "c \<in> set cs" by auto
    from Cons.IH [OF this Cons.prems(3)] show ?thesis .
  next
    case False
    with Cons.prems(1) obtain p q cur m1 m2 dis where
      p: "map_of pc x = Some p" and q: "map_of ic x = Some q"
      and v: "vstack p q = Inr cur" and P: "P R cur = Inr (m1, m2, dis)"
      and rest: "align_chains P pc ic r R n cs
          (AList.update x (rows_upto n m2) ap, AList.update x (rows_from n m2) ai) = Inr (ap', ai')"
      by (auto simp: lookup_Inr split: sum.splits prod.splits)
    show ?thesis
    proof (cases "c \<in> set cs")
      case True
      from Cons.IH [OF rest True Cons.prems(3)] show ?thesis .
    next
      case False
      with Cons.prems(2) have cx: "c = x" by simp
      from False have "c \<notin> set cs \<or> c = r" by simp
      from align_chains_other [OF rest this] cx
      have "map_of ap' c = Some (rows_upto n m2)" and "map_of ai' c = Some (rows_from n m2)"
        by (simp_all add: AList.update_conv')
      with p q v P cx show ?thesis by blast
    qed
  qed
qed

lemma align_chains_prefix:
  "\<forall>x\<in>set pre. x = r \<or> aligns P pc ic R x \<Longrightarrow>
   \<exists>acc'. align_chains P pc ic r R n (pre @ rest) acc = align_chains P pc ic r R n rest acc'"
proof (induction pre arbitrary: acc)
  case Nil
  show ?case by (intro exI [of _ acc]) simp
next
  case (Cons x pre)
  obtain ap ai where acc: "acc = (ap, ai)" by (cases acc)
  from Cons.prems have pre: "\<forall>x\<in>set pre. x = r \<or> aligns P pc ic R x" by simp
  show ?case
  proof (cases "x = r")
    case True
    with Cons.IH [OF pre, of "(ap, ai)"] acc show ?thesis by simp
  next
    case False
    with Cons.prems have "aligns P pc ic R x" by simp
    then obtain p q cur m1 m2 dis where
      "map_of pc x = Some p" "map_of ic x = Some q" "vstack p q = Inr cur"
      "P R cur = Inr (m1, m2, dis)"
      unfolding aligns_def by (metis prod_cases3)
    with False acc
      Cons.IH [OF pre, of "(AList.update x (rows_upto n m2) ap, AList.update x (rows_from n m2) ai)"]
    show ?thesis by (simp add: lookup_def)
  qed
qed

lemma align_chains_first_missing:
  assumes "\<forall>x\<in>set pre. x = r \<or> aligns P pc ic R x"
    and "c \<noteq> r" and "map_of pc c \<noteq> None" and "map_of ic c = None"
  shows "align_chains P pc ic r R n (pre @ c # post) acc = Inl (KeyError (Chain c))"
proof -
  from align_chains_prefix [OF assms(1), of n "c # post" acc] obtain acc' where
    "align_chains P pc ic r R n (pre @ c # post) acc = align_chains P pc ic r R n (c # post) acc'"
    by blast
  moreover obtain ap ai where "acc' = (ap, ai)" by (cases acc')
  ultimately show ?thesis using assms(2,3,4) by (auto simp: lookup_def)
qed

subsection \<open>Column sums\<close>





subsection \<open>Filling the matrix of a chain\<close>

lemma setitem2_Inr:
  "setitem2 m i d v = Inr m' \<Longrightarrow>
   shape0 m' = shape0 m \<and> shape1 m' = shape1 m \<and>
   item m' = (item m)(i := (item m i)(d := v))"
  by (auto simp: setitem2_def split: if_splits)

lemma setitem2_ok:
  "i < shape0 m \<Longrightarrow> d < shape1 m \<Longrightarrow> \<exists>m'. setitem2 m i d v = Inr m'"
  by (simp add: setitem2_def)

lemma fill_dims_Inr:
  "fill_dims mp prefix i ds m = Inr m' \<Longrightarrow>
   shape0 m' = shape0 m \<and> shape1 m' = shape1 m \<and>
   (\<forall>d\<in>set ds. mp (param_name prefix i d) \<noteq> None) \<and>
   (\<forall>i' d'. item m' i' d' =
      (if i' = i \<and> d' \<in> set ds then the (mp (param_name prefix i d')) else item m i' d'))"
proof (induction ds arbitrary: m)
  case Nil
  then show ?case by simp
next
  case (Cons d ds)
  from Cons.prems obtain v m1 where v: "mp (param_name prefix i d) = Some v"
    and s: "setitem2 m i d v = Inr m1" and r: "fill_dims mp prefix i ds m1 = Inr m'"
    by (auto split: option.splits sum.splits)
  from Cons.IH [OF r] setitem2_Inr [OF s] v show ?case by auto
qed

lemma fill_dims_total:
  assumes "i < shape0 m" and "\<forall>d\<in>set ds. d < shape1 m"
  shows "(\<exists>m'. fill_dims mp prefix i ds m = Inr m') \<or>
    (\<exists>d\<in>set ds. mp (param_name prefix i d) = None \<and>
       fill_dims mp prefix i ds m = Inl (KeyError (Label (param_name prefix i d))))"
  using assms
proof (induction ds arbitrary: m)
  case Nil
  then show ?case by simp
next
  case (Cons d ds)
  show ?case
  proof (cases "mp (param_name prefix i d)")
    case None
    then show ?thesis by simp
  next
    case (Some v)
    from Cons.prems obtain m1 where s: "setitem2 m i d v = Inr m1"
      using setitem2_ok [of i m d v] by auto
    from setitem2_Inr [OF s] Cons.prems have "i < shape0 m1" and "\<forall>d\<in>set ds. d < shape1 m1"
      by simp_all
    from Cons.IH [OF this] Some s show ?thesis by auto
  qed
qed

lemma fill_entities_Inr:
  "fill_entities mp prefix is D m = Inr m' \<Longrightarrow>
   shape0 m' = shape0 m \<and> shape1 m' = shape1 m \<and>
   (\<forall>i\<in>set is. \<forall>d<D. mp (param_name prefix i d) \<noteq> None) \<and>
   (\<forall>i d. item m' i d =
      (if i \<in> set is \<and> d < D then the (mp (param_name prefix i d)) else item m i d))"
proof (induction "is" arbitrary: m)
  case Nil
  then show ?case by simp
next
  case (Cons i "is")
  from Cons.prems obtain m1 where s: "fill_dims mp prefix i [0..<D] m = Inr m1"
    and r: "fill_entities mp prefix is D m1 = Inr m'"
    by (auto split: sum.splits)
  from Cons.IH [OF r] fill_dims_Inr [OF s] show ?case by auto
qed

lemma fill_entities_total:
  assumes "\<forall>i\<in>set is. i < shape0 m" and "D \<le> shape1 m"
  shows "(\<exists>m'. fill_entities mp prefix is D m = Inr m') \<or>
    (\<exists>i\<in>set is. \<exists>d<D. mp (param_name prefix i d) = None \<and>
       fill_entities mp prefix is D m = Inl (KeyError (Label (param_name prefix i d))))"
  using assms
proof (induction "is" arbitrary: m)
  case Nil
  then show ?case by simp
next
  case (Cons i "is")
  from Cons.prems have "i < shape0 m" and "\<forall>d\<in>set [0..<D]. d < shape1 m" by auto
  from fill_dims_total [OF this, of mp prefix]
  consider (ok) m1 where "fill_dims mp prefix i [0..<D] m = Inr m1"
    | (bad) d where "d < D" and "mp (param_name prefix i d) = None"
      and "fill_dims mp prefix i [0..<D] m = Inl (KeyError (Label (param_name prefix i d)))"
    by auto
  then show ?case
  proof cases
    case ok
    from fill_dims_Inr [OF ok] Cons.prems have "\<forall>i\<in>set is. i < shape0 m1" and "D \<le> shape1 m1"
      by simp_all
    from Cons.IH [OF this] ok show ?thesis by auto
  next
    case bad
    then show ?thesis by auto
  qed
qed

lemma mean_params_chain:
  "df_mean M (drop_column (select_chain df c) ''chain__'') name =
     (if name \<in> set (columns df) \<and> name \<noteq> ''chain__''
      then Some (M (chain_values df name c)) else None)"
  by (simp add: df_mean_def drop_column_def select_chain_def chain_values_def)

lemma unique_set: "set (unique xs) = set xs"
  by (simp add: unique_def)

lemma unique_distinct: "distinct (unique xs)"
  by (simp add: unique_def)

subsection \<open>The loop over the chains\<close>


lemma chain_fill_total:
  "(\<exists>m. fill_entities (df_mean M (drop_column (select_chain df c) ''chain__'')) prefix
      [0..<n] D (zeros n D) = Inr m) \<or>
   (\<exists>i<n. \<exists>d<D. param_name prefix i d \<notin> set (columns df) \<and>
      fill_entities (df_mean M (drop_column (select_chain df c) ''chain__'')) prefix
        [0..<n] D (zeros n D) = Inl (KeyError (Label (param_name prefix i d))))"
proof -
  have "\<forall>i\<in>set [0..<n]. i < shape0 (zeros n D)" and "D \<le> shape1 (zeros n D)"
    by (simp_all add: zeros_def)
  from fill_entities_total [OF this,
      of "df_mean M (drop_column (select_chain df c) ''chain__'')" prefix]
  show ?thesis
    by (auto simp: mean_params_chain param_name_not_chain split: if_splits)
qed


lemma chain_fill_absent:
  assumes "i < n" and "d < D" and "param_name prefix i d \<notin> set (columns df)"
  shows "\<exists>i<n. \<exists>d<D. param_name prefix i d \<notin> set (columns df) \<and>
      fill_entities (df_mean M (drop_column (select_chain df c) ''chain__'')) prefix
        [0..<n] D (zeros n D) = Inl (KeyError (Label (param_name prefix i d)))"
proof -
  have "fill_entities (df_mean M (drop_column (select_chain df c) ''chain__'')) prefix
      [0..<n] D (zeros n D) \<noteq> Inr m" for m
  proof
    assume "fill_entities (df_mean M (drop_column (select_chain df c) ''chain__'')) prefix
      [0..<n] D (zeros n D) = Inr m"
    from fill_entities_Inr [OF this] assms(1,2)
    have "df_mean M (drop_column (select_chain df c) ''chain__'') (param_name prefix i d) \<noteq> None"
      by simp
    with assms(3) show False by (simp add: mean_params_chain)
  qed
  with chain_fill_total [of M df c prefix n D] show ?thesis by blast
qed





subsection \<open>Small cases, for the examples\<close>



lemma less_2_cases_nat: "d < (2::nat) \<Longrightarrow> d = 0 \<or> d = Suc 0"
  by auto

lemma name_xi_1_1: "param_name ''xi'' 0 0 = ''xi[1,1]''"
  by (simp add: param_name_def str_nat.simps digit_char_def)

lemma name_xi_1_2: "param_name ''xi'' 0 (Suc 0) = ''xi[1,2]''"
  by (simp add: param_name_def str_nat.simps digit_char_def)


subsection \<open>The assignments, row by row\<close>

lemma dims_row_other:
  "\<forall>d\<in>set ds. name \<noteq> param_name prefix i d \<Longrightarrow>
   dims_row cols prefix coords i ds r name = r name"
  by (induction ds arbitrary: r) simp_all

lemma dims_row_hit:
  "d \<in> set ds \<Longrightarrow> param_name prefix i d \<in> set cols \<Longrightarrow>
   dims_row cols prefix coords i ds r (param_name prefix i d) = item coords i d"
proof (induction ds arbitrary: r)
  case Nil
  then show ?case by simp
next
  case (Cons d0 ds)
  show ?case
  proof (cases "d \<in> set ds")
    case True
    from Cons.IH [OF True Cons.prems(2)] show ?thesis by simp
  next
    case False
    with Cons.prems(1) have d0: "d0 = d" by simp
    from False have "\<forall>d'\<in>set ds. param_name prefix i d \<noteq> param_name prefix i d'"
      by (auto dest: param_name_inj)
    with d0 Cons.prems(2) show ?thesis by (simp add: dims_row_other)
  qed
qed

lemma ents_row_other:
  "\<forall>i\<in>set is. \<forall>d<D. name \<noteq> param_name prefix i d \<Longrightarrow>
   ents_row cols prefix coords is D r name = r name"
proof (induction "is" arbitrary: r)
  case Nil
  then show ?case by simp
next
  case (Cons i "is")
  from Cons.prems have "\<forall>d\<in>set [0..<D]. name \<noteq> param_name prefix i d" by simp
  from dims_row_other [OF this] Cons show ?case by simp
qed

lemma ents_row_hit:
  "i \<in> set is \<Longrightarrow> d < D \<Longrightarrow> param_name prefix i d \<in> set cols \<Longrightarrow>
   ents_row cols prefix coords is D r (param_name prefix i d) = item coords i d"
proof (induction "is" arbitrary: r)
  case Nil
  then show ?case by simp
next
  case (Cons i0 "is")
  show ?case
  proof (cases "i \<in> set is")
    case True
    from Cons.IH [OF True Cons.prems(2,3)] show ?thesis by simp
  next
    case False
    with Cons.prems(1) have i0: "i0 = i" by simp
    from False have "\<forall>i'\<in>set is. \<forall>d'<D. param_name prefix i d \<noteq> param_name prefix i' d'"
      by (auto dest: param_name_inj)
    from ents_row_other [OF this] have
      "ents_row cols prefix coords is D (dims_row cols prefix coords i [0..<D] r)
         (param_name prefix i d) = dims_row cols prefix coords i [0..<D] r (param_name prefix i d)" .
    also from Cons.prems(2,3) have "\<dots> = item coords i d"
      by (intro dims_row_hit) simp_all
    finally show ?thesis using i0 by simp
  qed
qed

lemma chains_row_other:
  "\<forall>i d. name \<noteq> param_name prefix i d \<Longrightarrow> chains_row cols prefix cm D r name = r name"
proof (induction cm arbitrary: r)
  case Nil
  then show ?case by simp
next
  case (Cons x cm)
  obtain c coords where x: "x = (c, coords)" by (cases x)
  from Cons.prems have
    "ents_row cols prefix coords [0..<shape0 coords] D r name = r name"
    by (intro ents_row_other) simp
  with Cons x show ?case by simp
qed

lemma chains_row_chain: "chains_row cols prefix cm D r ''chain__'' = r ''chain__''"
proof (rule chains_row_other, intro allI)
  fix i d
  from param_name_not_chain [of prefix i d] show "''chain__'' \<noteq> param_name prefix i d"
    by (rule not_sym)
qed

lemma ents_row_chain: "ents_row cols prefix coords is D r ''chain__'' = r ''chain__''"
proof (rule ents_row_other, intro ballI allI impI)
  fix i d
  from param_name_not_chain [of prefix i d] show "''chain__'' \<noteq> param_name prefix i d"
    by (rule not_sym)
qed

lemma chains_row_untouched:
  "r ''chain__'' \<notin> fst ` set cm \<Longrightarrow> chains_row cols prefix cm D r = r"
proof (induction cm arbitrary: r)
  case Nil
  then show ?case by simp
next
  case (Cons x cm)
  obtain c coords where x: "x = (c, coords)" by (cases x)
  with Cons show ?case by simp
qed

lemma chains_row_hit:
  assumes "distinct (map fst cm)" and "(c, coords) \<in> set cm" and "r ''chain__'' = c"
    and "i < shape0 coords" and "d < D" and "param_name prefix i d \<in> set cols"
  shows "chains_row cols prefix cm D r (param_name prefix i d) = item coords i d"
  using assms(1,2,3)
proof (induction cm arbitrary: r)
  case Nil
  then show ?case by simp
next
  case (Cons x cm)
  obtain c0 coords0 where x: "x = (c0, coords0)" by (cases x)
  show ?case
  proof (cases "(c, coords) \<in> set cm")
    case True
    with Cons.prems(1) x have ne: "c0 \<noteq> c" by force
    from Cons.prems(1) have "distinct (map fst cm)" by simp
    from Cons.IH [of r, OF this True Cons.prems(3)] ne x Cons.prems(3) show ?thesis by simp
  next
    case False
    with Cons.prems(2) x have eq: "c0 = c" "coords0 = coords" by simp_all
    let ?r1 = "ents_row cols prefix coords [0..<shape0 coords] D r"
    from Cons.prems(1) x eq have "c \<notin> fst ` set cm" by simp
    with Cons.prems(3) have "?r1 ''chain__'' \<notin> fst ` set cm" by (simp add: ents_row_chain)
    then have "chains_row cols prefix cm D ?r1 = ?r1" by (rule chains_row_untouched)
    moreover from assms(4,5,6) have "?r1 (param_name prefix i d) = item coords i d"
      by (intro ents_row_hit) simp_all
    ultimately show ?thesis using x eq Cons.prems(3) by simp
  qed
qed

subsection \<open>The assignments in the store\<close>

lemma framed_refl: "framed h a h"
  by (simp add: framed_def)

lemma framed_trans: "framed h a h1 \<Longrightarrow> framed h1 a h2 \<Longrightarrow> framed h a h2"
  by (simp add: framed_def)

lemma updated_framed: "updated h a F h' \<Longrightarrow> framed h a h'"
  by (simp add: updated_def)

lemma updated_refl: "updated h a (\<lambda>k r. r) h"
  by (simp add: updated_def framed_def)

lemma updated_trans:
  "updated h a F h1 \<Longrightarrow> updated h1 a G h2 \<Longrightarrow> updated h a (\<lambda>k r. G k (F k r)) h2"
  by (simp add: updated_def framed_def)

lemma updated_cong:
  "updated h a F h' \<Longrightarrow>
   \<forall>k<length (rows (h ! a)). F k (rows (h ! a) ! k) = G k (rows (h ! a) ! k) \<Longrightarrow>
   updated h a G h'"
  by (simp add: updated_def)

lemma loc_assign_updated:
  assumes "a < length h" and "length m = length (rows (h ! a))"
  shows "updated h a (\<lambda>k r. if m ! k then r(name := v) else r) (loc_assign h a m name v)"
  using assms by (simp add: updated_def framed_def loc_assign_def set_where_def)

lemma replace_dims_effect:
  assumes "a < length h" and "length m = length (rows (h ! a))"
    and "replace_dims h a m prefix coords i ds = (h', e)"
  shows "framed h a h' \<and>
    (e = None \<longrightarrow>
      updated h a (\<lambda>k r. if m ! k then dims_row (columns (h ! a)) prefix coords i ds r else r) h')"
  using assms
proof (induction ds arbitrary: h)
  case Nil
  then show ?case using updated_refl [of h a] by (auto simp: framed_refl updated_def)
next
  case (Cons d ds)
  let ?name = "param_name prefix i d"
  show ?case
  proof (cases "?name \<in> set (columns (h ! a))")
    case False
    with Cons.prems(3) have "replace_dims h a m prefix coords i ds = (h', e)" by simp
    from Cons.IH [OF Cons.prems(1,2) this] False show ?thesis by (simp cong: if_cong)
  next
    case True
    show ?thesis
    proof (cases "getitem2 coords i d")
      case (Inl x)
      with True Cons.prems(3) show ?thesis by (auto simp: framed_refl)
    next
      case (Inr v)
      then have v: "v = item coords i d" by (auto simp: getitem2_def split: if_splits)
      let ?h1 = "loc_assign h a m ?name v"
      note u1 = loc_assign_updated [OF Cons.prems(1,2), of ?name v]
      note f1 = updated_framed [OF u1]
      from f1 Cons.prems(1,2) have a1: "a < length ?h1"
        and m1: "length m = length (rows (?h1 ! a))"
        and c1: "columns (?h1 ! a) = columns (h ! a)"
        by (simp_all add: framed_def)
      from True Inr Cons.prems(3) have "replace_dims ?h1 a m prefix coords i ds = (h', e)"
        by simp
      note ih = Cons.IH [OF a1 m1 this]
      from ih f1 have fr: "framed h a h'" by (blast intro: framed_trans)
      have "updated h a (\<lambda>k r. if m ! k
          then dims_row (columns (h ! a)) prefix coords i (d # ds) r else r) h'"
        if "e = None"
      proof -
        from ih that c1 have "updated ?h1 a
          (\<lambda>k r. if m ! k then dims_row (columns (h ! a)) prefix coords i ds r else r) h'"
          by (simp cong: if_cong)
        from updated_trans [OF u1 this] show ?thesis
          by (rule updated_cong) (simp add: True v)
      qed
      with fr show ?thesis by simp
    qed
  qed
qed

lemma replace_dims_ok:
  assumes "a < length h" and "length m = length (rows (h ! a))"
    and "\<forall>d\<in>set ds. param_name prefix i d \<in> set (columns (h ! a))
           \<longrightarrow> i < shape0 coords \<and> d < shape1 coords"
  shows "snd (replace_dims h a m prefix coords i ds) = None"
  using assms
proof (induction ds arbitrary: h)
  case Nil
  then show ?case by simp
next
  case (Cons d ds)
  let ?name = "param_name prefix i d"
  show ?case
  proof (cases "?name \<in> set (columns (h ! a))")
    case False
    with Cons show ?thesis by simp
  next
    case True
    let ?h1 = "loc_assign h a m ?name (item coords i d)"
    note f1 = updated_framed [OF loc_assign_updated [OF Cons.prems(1,2), of ?name "item coords i d"]]
    from f1 Cons.prems have "a < length ?h1" and "length m = length (rows (?h1 ! a))"
      and "\<forall>d\<in>set ds. param_name prefix i d \<in> set (columns (?h1 ! a))
           \<longrightarrow> i < shape0 coords \<and> d < shape1 coords"
      by (simp_all add: framed_def)
    from Cons.IH [OF this] True Cons.prems(3) show ?thesis
      by (simp add: getitem2_def)
  qed
qed

lemma replace_entities_effect:
  assumes "a < length h" and "length m = length (rows (h ! a))"
    and "replace_entities h a m prefix coords is D = (h', e)"
  shows "framed h a h' \<and>
    (e = None \<longrightarrow>
      updated h a (\<lambda>k r. if m ! k then ents_row (columns (h ! a)) prefix coords is D r else r) h')"
  using assms
proof (induction "is" arbitrary: h)
  case Nil
  then show ?case using updated_refl [of h a] by (auto simp: framed_refl updated_def)
next
  case (Cons i "is")
  obtain h1 e1 where d: "replace_dims h a m prefix coords i [0..<D] = (h1, e1)"
    by (cases "replace_dims h a m prefix coords i [0..<D]")
  note de = replace_dims_effect [OF Cons.prems(1,2) d]
  then have f1: "framed h a h1" by simp
  show ?case
  proof (cases e1)
    case (Some x)
    with d Cons.prems(3) f1 show ?thesis by auto
  next
    case None
    with de have u1: "updated h a
      (\<lambda>k r. if m ! k then dims_row (columns (h ! a)) prefix coords i [0..<D] r else r) h1"
      by simp
    from f1 Cons.prems(1,2) have a1: "a < length h1"
      and m1: "length m = length (rows (h1 ! a))"
      and c1: "columns (h1 ! a) = columns (h ! a)"
      by (simp_all add: framed_def)
    from None d Cons.prems(3) have "replace_entities h1 a m prefix coords is D = (h', e)"
      by simp
    note ih = Cons.IH [OF a1 m1 this]
    from ih f1 have fr: "framed h a h'" by (blast intro: framed_trans)
    have "updated h a (\<lambda>k r. if m ! k
        then ents_row (columns (h ! a)) prefix coords (i # is) D r else r) h'"
      if "e = None"
    proof -
      from ih that c1 have "updated h1 a
        (\<lambda>k r. if m ! k then ents_row (columns (h ! a)) prefix coords is D r else r) h'"
        by (simp cong: if_cong)
      from updated_trans [OF u1 this] show ?thesis
        by (rule updated_cong) simp
    qed
    with fr show ?thesis by simp
  qed
qed

lemma replace_entities_ok:
  assumes "a < length h" and "length m = length (rows (h ! a))"
    and "\<forall>i\<in>set is. \<forall>d<D. param_name prefix i d \<in> set (columns (h ! a))
           \<longrightarrow> i < shape0 coords \<and> d < shape1 coords"
  shows "snd (replace_entities h a m prefix coords is D) = None"
  using assms
proof (induction "is" arbitrary: h)
  case Nil
  then show ?case by simp
next
  case (Cons i "is")
  obtain h1 e1 where d: "replace_dims h a m prefix coords i [0..<D] = (h1, e1)"
    by (cases "replace_dims h a m prefix coords i [0..<D]")
  from Cons.prems(3) have "\<forall>d\<in>set [0..<D]. param_name prefix i d \<in> set (columns (h ! a))
           \<longrightarrow> i < shape0 coords \<and> d < shape1 coords" by simp
  from replace_dims_ok [OF Cons.prems(1,2) this] d have e1: "e1 = None" by simp
  from replace_dims_effect [OF Cons.prems(1,2) d] have f1: "framed h a h1" by simp
  from f1 Cons.prems have "a < length h1" and "length m = length (rows (h1 ! a))"
    and "\<forall>i\<in>set is. \<forall>d<D. param_name prefix i d \<in> set (columns (h1 ! a))
           \<longrightarrow> i < shape0 coords \<and> d < shape1 coords"
    by (simp_all add: framed_def)
  from Cons.IH [OF this] d e1 show ?case by simp
qed

lemma replace_chains_effect:
  assumes "a < length h" and "replace_chains h a prefix cm D = (h', e)"
  shows "framed h a h' \<and>
    (e = None \<longrightarrow> updated h a (\<lambda>k. chains_row (columns (h ! a)) prefix cm D) h')"
  using assms
proof (induction cm arbitrary: h)
  case Nil
  then show ?case using updated_refl [of h a] by (auto simp: framed_refl)
next
  case (Cons x cm)
  obtain c coords where x: "x = (c, coords)" by (cases x)
  show ?case
  proof (cases "''chain__'' \<in> set (columns (h ! a))")
    case False
    with Cons.prems(2) x show ?thesis by (auto simp: getitem_def framed_refl)
  next
    case True
    let ?m = "map (\<lambda>x. x = c) (map (\<lambda>r. r ''chain__'') (rows (h ! a)))"
    have lm: "length ?m = length (rows (h ! a))" by simp
    obtain h1 e1 where d: "replace_entities h a ?m prefix coords [0..<shape0 coords] D = (h1, e1)"
      by (cases "replace_entities h a ?m prefix coords [0..<shape0 coords] D")
    note de = replace_entities_effect [OF Cons.prems(1) lm d]
    then have f1: "framed h a h1" by simp
    show ?thesis
    proof (cases e1)
      case (Some y)
      with d True Cons.prems(2) x f1 show ?thesis by (auto simp: getitem_def)
    next
      case None
      with de have "updated h a (\<lambda>k r. if ?m ! k
          then ents_row (columns (h ! a)) prefix coords [0..<shape0 coords] D r else r) h1"
        by simp
      then have u1: "updated h a (\<lambda>k r. if r ''chain__'' = c
          then ents_row (columns (h ! a)) prefix coords [0..<shape0 coords] D r else r) h1"
        by (rule updated_cong) simp
      from f1 Cons.prems(1) have a1: "a < length h1"
        and c1: "columns (h1 ! a) = columns (h ! a)"
        by (simp_all add: framed_def)
      from None d True Cons.prems(2) x have "replace_chains h1 a prefix cm D = (h', e)"
        by (simp add: getitem_def)
      note ih = Cons.IH [OF a1 this]
      from ih f1 have fr: "framed h a h'" by (blast intro: framed_trans)
      have "updated h a (\<lambda>k. chains_row (columns (h ! a)) prefix (x # cm) D) h'"
        if "e = None"
      proof -
        from ih that c1 have "updated h1 a (\<lambda>k. chains_row (columns (h ! a)) prefix cm D) h'"
          by simp
        from updated_trans [OF u1 this] show ?thesis
          by (rule updated_cong) (simp add: x)
      qed
      with fr show ?thesis by simp
    qed
  qed
qed

lemma replace_chains_ok:
  assumes "a < length h" and "''chain__'' \<in> set (columns (h ! a))"
    and "\<forall>(c, coords)\<in>set cm. \<forall>i<shape0 coords. \<forall>d<D.
           param_name prefix i d \<in> set (columns (h ! a)) \<longrightarrow> d < shape1 coords"
  shows "snd (replace_chains h a prefix cm D) = None"
  using assms
proof (induction cm arbitrary: h)
  case Nil
  then show ?case by simp
next
  case (Cons x cm)
  obtain c coords where x: "x = (c, coords)" by (cases x)
  let ?m = "map (\<lambda>x. x = c) (map (\<lambda>r. r ''chain__'') (rows (h ! a)))"
  have lm: "length ?m = length (rows (h ! a))" by simp
  obtain h1 e1 where d: "replace_entities h a ?m prefix coords [0..<shape0 coords] D = (h1, e1)"
    by (cases "replace_entities h a ?m prefix coords [0..<shape0 coords] D")
  from Cons.prems(3) x have "\<forall>i\<in>set [0..<shape0 coords]. \<forall>d<D.
      param_name prefix i d \<in> set (columns (h ! a)) \<longrightarrow> i < shape0 coords \<and> d < shape1 coords"
    by simp
  from replace_entities_ok [OF Cons.prems(1) lm this] d have e1: "e1 = None" by simp
  from replace_entities_effect [OF Cons.prems(1) lm d] have f1: "framed h a h1" by simp
  from f1 Cons.prems have "a < length h1" and "''chain__'' \<in> set (columns (h1 ! a))"
    and "\<forall>(c, coords)\<in>set cm. \<forall>i<shape0 coords. \<forall>d<D.
           param_name prefix i d \<in> set (columns (h1 ! a)) \<longrightarrow> d < shape1 coords"
    by (simp_all add: framed_def)
  from Cons.IH [OF this] d e1 x Cons.prems(2) show ?case by (simp add: getitem_def)
qed

subsection \<open>The whole replacement\<close>

lemma create_effect:
  assumes o: "original_draws < length h"
    and c: "create_aligned_draws_dataframe h original_draws ap ai D = (h', res)"
  shows "length h' = Suc (length h) \<and> (\<forall>r<length h. h' ! r = h ! r) \<and>
    columns (h' ! length h) = columns (h ! original_draws) \<and>
    length (rows (h' ! length h)) = length (rows (h ! original_draws)) \<and>
    (\<forall>new. res = Inr new \<longrightarrow> new = length h \<and>
       (\<forall>k<length (rows (h ! original_draws)).
          rows (h' ! new) ! k =
            chains_row (columns (h ! original_draws)) ''zt_centered'' ai D
              (chains_row (columns (h ! original_draws)) ''xi'' ap D
                 (rows (h ! original_draws) ! k))))"
proof -
  let ?a = "length h"
  let ?h1 = "h @ [h ! original_draws]"
  have a1: "?a < length ?h1" by simp
  have h1a: "?h1 ! ?a = h ! original_draws" by simp
  obtain h2 e2 where r2: "replace_chains ?h1 ?a ''xi'' ap D = (h2, e2)"
    by (cases "replace_chains ?h1 ?a ''xi'' ap D")
  note ef2 = replace_chains_effect [OF a1 r2]
  then have f2: "framed ?h1 ?a h2" by simp
  then have a2: "?a < length h2" by (simp add: framed_def)
  have old1: "\<forall>r<length h. ?h1 ! r = h ! r" by (simp add: nth_append)
  show ?thesis
  proof (cases e2)
    case (Some x)
    with c r2 have "h' = h2" and "res = Inl x"
      by (simp_all add: create_aligned_draws_dataframe_def df_copy_def)
    with f2 old1 h1a show ?thesis by (simp add: framed_def)
  next
    case None
    with ef2 have u2: "updated ?h1 ?a (\<lambda>k. chains_row (columns (?h1 ! ?a)) ''xi'' ap D) h2"
      by simp
    obtain h3 e3 where r3: "replace_chains h2 ?a ''zt_centered'' ai D = (h3, e3)"
      by (cases "replace_chains h2 ?a ''zt_centered'' ai D")
    note ef3 = replace_chains_effect [OF a2 r3]
    then have f3: "framed h2 ?a h3" by simp
    from framed_trans [OF f2 f3] have f: "framed ?h1 ?a h3" .
    from None c r2 r3 have h': "h' = h3"
      and res: "res = (case e3 of None \<Rightarrow> Inr ?a | Some e \<Rightarrow> Inl e)"
      by (simp_all add: create_aligned_draws_dataframe_def df_copy_def split: option.splits)
    have cells: "\<forall>k<length (rows (h ! original_draws)).
          rows (h3 ! ?a) ! k =
            chains_row (columns (h ! original_draws)) ''zt_centered'' ai D
              (chains_row (columns (h ! original_draws)) ''xi'' ap D
                 (rows (h ! original_draws) ! k))"
      if "e3 = None"
    proof -
      from ef3 that have "updated h2 ?a (\<lambda>k. chains_row (columns (h2 ! ?a)) ''zt_centered'' ai D) h3"
        by simp
      from updated_trans [OF u2 this] f2 h1a show ?thesis
        by (simp add: updated_def framed_def)
    qed
    from f old1 h1a have "length h3 = Suc (length h) \<and> (\<forall>r<length h. h3 ! r = h ! r) \<and>
      columns (h3 ! length h) = columns (h ! original_draws) \<and>
      length (rows (h3 ! length h)) = length (rows (h ! original_draws))"
      by (simp add: framed_def)
    with cells h' res show ?thesis by (auto split: option.splits)
  qed
qed

lemma create_ok:
  assumes o: "original_draws < length h"
    and ch: "''chain__'' \<in> set (columns (h ! original_draws))"
    and fp: "\<forall>(c, coords)\<in>set ap. \<forall>i<shape0 coords. \<forall>d<D.
           param_name ''xi'' i d \<in> set (columns (h ! original_draws)) \<longrightarrow> d < shape1 coords"
    and fi: "\<forall>(c, coords)\<in>set ai. \<forall>i<shape0 coords. \<forall>d<D.
           param_name ''zt_centered'' i d \<in> set (columns (h ! original_draws))
             \<longrightarrow> d < shape1 coords"
  shows "\<exists>h'. create_aligned_draws_dataframe h original_draws ap ai D = (h', Inr (length h))"
proof -
  let ?a = "length h"
  let ?h1 = "h @ [h ! original_draws]"
  have a1: "?a < length ?h1" by simp
  have h1a: "?h1 ! ?a = h ! original_draws" by simp
  obtain h2 e2 where r2: "replace_chains ?h1 ?a ''xi'' ap D = (h2, e2)"
    by (cases "replace_chains ?h1 ?a ''xi'' ap D")
  from ch fp have "snd (replace_chains ?h1 ?a ''xi'' ap D) = None"
    by (intro replace_chains_ok) (simp_all only: h1a a1)
  with r2 have e2: "e2 = None" by simp
  from replace_chains_effect [OF a1 r2] have f2: "framed ?h1 ?a h2" by simp
  then have a2: "?a < length h2" and c2: "columns (h2 ! ?a) = columns (h ! original_draws)"
    by (simp_all add: framed_def)
  obtain h3 e3 where r3: "replace_chains h2 ?a ''zt_centered'' ai D = (h3, e3)"
    by (cases "replace_chains h2 ?a ''zt_centered'' ai D")
  from ch fi have "snd (replace_chains h2 ?a ''zt_centered'' ai D) = None"
    by (intro replace_chains_ok) (simp_all only: c2 a2)
  with r3 have "e3 = None" by simp
  with r2 e2 r3 show ?thesis
    by (simp add: create_aligned_draws_dataframe_def df_copy_def)
qed

lemma rewritten_row:
  assumes "original_draws < length h"
    and "create_aligned_draws_dataframe h original_draws ap ai D = (h', Inr new)"
    and "k < length (rows (h ! original_draws))"
  shows "rows (h' ! new) ! k =
     chains_row (columns (h ! original_draws)) ''zt_centered'' ai D
       (chains_row (columns (h ! original_draws)) ''xi'' ap D (rows (h ! original_draws) ! k))"
  using create_effect [OF assms(1,2)] assms(3) by auto

lemma rewritten_table:
  assumes "original_draws < length h"
    and "create_aligned_draws_dataframe h original_draws ap ai D = (h', Inr new)"
  shows "new = length h" and "columns (h' ! new) = columns (h ! original_draws)"
    and "length (rows (h' ! new)) = length (rows (h ! original_draws))"
  using create_effect [OF assms] by simp_all

subsection \<open>The example table\<close>

lemma not_param_name: "last name \<noteq> CHR '']'' \<Longrightarrow> name \<noteq> param_name prefix i d"
  by (auto simp: param_name_def)

lemma name_zt_1_1: "param_name ''zt_centered'' 0 0 = ''zt_centered[1,1]''"
  by (simp add: param_name_def str_nat.simps digit_char_def)

lemma demo_ok:
  "\<exists>h'. create_aligned_draws_dataframe [demo_draws] 0 demo_person demo_item 2
     = (h', Inr (length [demo_draws]))"
  by (rule create_ok) (simp_all add: demo_person_def demo_item_def demo_draws_def array2_def)

lemma demo_row:
  assumes "create_aligned_draws_dataframe [demo_draws] 0 demo_person demo_item 2 = (h', Inr new)"
    and "k < 3"
  shows "(rows (h' ! new) ! k) ''chain__'' = (rows demo_draws ! k) ''chain__''"
    and "param_name ''xi'' 0 0 \<in> set (columns (h' ! new))"
    and "param_name ''zt_centered'' 0 0 \<in> set (columns (h' ! new))"
    and "k < length (rows (h' ! new))"
proof -
  have o: "0 < length [demo_draws]" by simp
  from assms(2) have k: "k < length (rows ([demo_draws] ! 0))" by (simp add: demo_draws_def)
  from rewritten_row [OF o assms(1) k]
  show "(rows (h' ! new) ! k) ''chain__'' = (rows demo_draws ! k) ''chain__''"
    by (simp add: chains_row_chain)
  from rewritten_table [OF o assms(1)] assms(2)
  show "param_name ''xi'' 0 0 \<in> set (columns (h' ! new))"
    and "param_name ''zt_centered'' 0 0 \<in> set (columns (h' ! new))"
    and "k < length (rows (h' ! new))"
    by (simp_all add: demo_draws_def name_xi_1_1 name_zt_1_1)
qed

section \<open>The properties of the specification\<close>

subsection \<open>Extraction\<close>




text \<open>
  C7. On a table without rows the chain loop does not run, so no column is looked up:
  the call below returns the empty dictionary although column \<^verbatim>\<open>xi[1,1]\<close> is absent.
\<close>

theorem extract_without_rows_counterexample:
  "param_name ''xi'' 0 0 \<notin> set (columns \<lparr>columns = [''chain__''], rows = []\<rparr>) \<and>
   extract_latent_coordinates mean64 \<lparr>columns = [''chain__''], rows = []\<rparr> 1 1 ''xi'' = Inr []"
  by (simp add: extract_latent_coordinates_def getitem_def unique_def param_name_not_chain)

text \<open>
  C7, as the code has it. For a table with the chain column and at least one row, if
  some required column \<^verbatim>\<open>prefix[i,d]\<close> is absent, \<^verbatim>\<open>extract_latent_coordinates\<close>
  raises the \<^verbatim>\<open>KeyError\<close> of an absent required column and returns no dictionary.
\<close>

theorem extract_missing_column:
  assumes ch: "''chain__'' \<in> set (columns df)" and ne: "rows df \<noteq> []"
    and miss: "i < n" "d < D" "param_name prefix i d \<notin> set (columns df)"
  shows "\<exists>i<n. \<exists>d<D. param_name prefix i d \<notin> set (columns df) \<and>
     extract_latent_coordinates mean df n D prefix
       = Inl (KeyError (Label (param_name prefix i d)))"
proof -
  let ?col = "map (\<lambda>r. r ''chain__'') (rows df)"
  from ne have "set (unique ?col) \<noteq> {}" by (simp add: unique_set)
  then obtain c cs where u: "unique ?col = c # cs" by (cases "unique ?col") auto
  from chain_fill_absent [OF miss, of mean c] obtain i' d' where
    "i' < n" "d' < D" "param_name prefix i' d' \<notin> set (columns df)"
    "fill_entities (df_mean mean (drop_column (select_chain df c) ''chain__'')) prefix
        [0..<n] D (zeros n D) = Inl (KeyError (Label (param_name prefix i' d')))"
    by blast
  with ch u show ?thesis
    by (auto simp: extract_latent_coordinates_def getitem_def Let_def)
qed

theorem extract_missing_column_witness:
  "extract_latent_coordinates mean64
     \<lparr>columns = [''chain__'', ''xi[1,1]''],
      rows = [row_of [(''chain__'', Finite 1), (''xi[1,1]'', Finite 4)]]\<rparr> 1 2 ''xi''
   = Inl (KeyError (Label ''xi[1,2]''))"
proof -
  let ?t = "\<lparr>columns = [''chain__'', ''xi[1,1]''],
      rows = [row_of [(''chain__'', Finite 1), (''xi[1,1]'', Finite 4)]]\<rparr>"
  have ch: "''chain__'' \<in> set (columns ?t)" and ne: "rows ?t \<noteq> []" by simp_all
  have miss: "(0::nat) < 1" "(1::nat) < 2" "param_name ''xi'' 0 1 \<notin> set (columns ?t)"
    by (simp_all add: name_xi_1_2)
  from extract_missing_column [OF ch ne miss, of mean64] obtain i d where
    i: "i < 1" and d: "d < 2" and n: "param_name ''xi'' i d \<notin> set (columns ?t)"
    and r: "extract_latent_coordinates mean64 ?t 1 2 ''xi''
       = Inl (KeyError (Label (param_name ''xi'' i d)))"
    by blast
  from i have i0: "i = 0" by simp
  from less_2_cases_nat [OF d] n i0 have "d = Suc 0" by (auto simp: name_xi_1_1)
  with r i0 show ?thesis by (simp add: name_xi_1_2)
qed

subsection \<open>Alignment\<close>




text \<open>
  C3. When the reference chain is a key of both dictionaries, its entries in both
  dictionaries that \<^verbatim>\<open>align_latent_spaces\<close> returns are the input matrices themselves:
  nothing is applied to them.
\<close>

theorem reference_chain_unchanged:
  assumes "map_of person_coords r = Some p" and "map_of item_coords r = Some q"
    and "align_latent_spaces P person_coords item_coords r = Inr (ap, ai)"
  shows "map_of ap r = Some p \<and> map_of ai r = Some q"
proof -
  from assms obtain R where
    "align_chains P person_coords item_coords r R (shape0 p) (map fst person_coords)
       ([(r, p)], [(r, q)]) = Inr (ap, ai)"
    by (auto simp: align_latent_spaces_def lookup_def split: sum.splits)
  from align_chains_ref [OF this] show ?thesis by simp
qed

theorem reference_chain_unchanged_witness:
  "\<exists>ap ai.
     align_latent_spaces perfect_fit
       [(1, array2 [[0, 0], [1, 0]]), (2, array2 [[1, 0], [1, 1]])]
       [(1, array2 [[0, 1], [1, 1]]), (2, array2 [[0, 0], [0, 1]])] 1 = Inr (ap, ai) \<and>
     map_of ap 1 = Some (array2 [[0, 0], [1, 0]]) \<and>
     map_of ai 1 = Some (array2 [[0, 1], [1, 1]])"
proof -
  let ?pc = "[(1::real, array2 [[0, 0], [1, 0]]), (2, array2 [[1, 0], [1, 1]])]"
  let ?ic = "[(1::real, array2 [[0, 1], [1, 1]]), (2, array2 [[0, 0], [0, 1]])]"
  have "\<exists>ap ai. align_latent_spaces perfect_fit ?pc ?ic 1 = Inr (ap, ai)"
    by (simp add: align_latent_spaces_def lookup_def vstack_def array2_def perfect_fit_def
        same_shape_def)
  then obtain ap ai where r: "align_latent_spaces perfect_fit ?pc ?ic 1 = Inr (ap, ai)"
    by blast
  have "map_of ?pc 1 = Some (array2 [[0, 0], [1, 0]])"
    and "map_of ?ic 1 = Some (array2 [[0, 1], [1, 1]])" by simp_all
  from reference_chain_unchanged [OF this r] r show ?thesis by blast
qed

text \<open>
  C6. When all person matrices have one shape and all item matrices have one shape,
  and the Procrustes routine returns a matrix of the shape of the one it aligned, every
  matrix of the output is the matrix of a chain of the input and has its shape. For
  every chain but the reference, the matrix given to the routine is the persons of the
  chain over its items, \<open>n_persons + n_items\<close> rows with the rows of each block in
  their order, and the output has the first \<open>n_persons\<close> rows of the aligned
  matrix as persons and the remaining \<open>n_items\<close> rows as items, in their order.
\<close>

theorem align_preserves_shapes:
  assumes k: "keeps_shape P"
    and sp: "\<forall>c c' m m'. map_of person_coords c = Some m \<and> map_of person_coords c' = Some m'
               \<longrightarrow> same_shape m m'"
    and si: "\<forall>c c' m m'. map_of item_coords c = Some m \<and> map_of item_coords c' = Some m'
               \<longrightarrow> same_shape m m'"
    and al: "align_latent_spaces P person_coords item_coords r = Inr (ap, ai)"
  shows "shapes_kept ap person_coords \<and> shapes_kept ai item_coords \<and>
    (\<exists>pr ir R.
       map_of person_coords r = Some pr \<and> map_of item_coords r = Some ir \<and>
       vstack pr ir = Inr R \<and>
       (\<forall>c\<in>fst ` set person_coords. c \<noteq> r \<longrightarrow>
          (\<exists>p q cur m1 m2 dis a b.
             map_of person_coords c = Some p \<and> map_of item_coords c = Some q \<and>
             vstack p q = Inr cur \<and> shape0 cur = shape0 p + shape0 q \<and>
             (\<forall>i<shape0 p. item cur i = item p i) \<and>
             (\<forall>i<shape0 q. item cur (shape0 p + i) = item q i) \<and>
             P R cur = Inr (m1, m2, dis) \<and> shape0 m2 = shape0 p + shape0 q \<and>
             map_of ap c = Some a \<and> map_of ai c = Some b \<and>
             same_shape a p \<and> same_shape b q \<and>
             (\<forall>i<shape0 p. item a i = item m2 i) \<and>
             (\<forall>i<shape0 q. item b i = item m2 (shape0 p + i)))))"
proof -
  from al obtain pr ir R where pr: "map_of person_coords r = Some pr"
    and ir: "map_of item_coords r = Some ir" and R: "vstack pr ir = Inr R"
    and lp: "align_chains P person_coords item_coords r R (shape0 pr) (map fst person_coords)
       ([(r, pr)], [(r, ir)]) = Inr (ap, ai)"
    by (rule align_latent_spaces_Inr)
  have n: "\<forall>c m. map_of person_coords c = Some m \<longrightarrow> shape0 m = shape0 pr"
  proof (intro allI impI)
    fix c m
    assume "map_of person_coords c = Some m"
    from sp [rule_format, OF conjI [OF this pr]] show "shape0 m = shape0 pr"
      by (simp add: same_shape_def)
  qed
  have "shapes_kept [(r, pr)] person_coords" and "shapes_kept [(r, ir)] item_coords"
    using pr ir by (auto simp: shapes_kept_def same_shape_def split: if_splits)
  note a = align_chains_shapes [OF k n lp this]
  have b: "\<forall>c\<in>fst ` set person_coords. c \<noteq> r \<longrightarrow>
          (\<exists>p q cur m1 m2 dis a b.
             map_of person_coords c = Some p \<and> map_of item_coords c = Some q \<and>
             vstack p q = Inr cur \<and> shape0 cur = shape0 p + shape0 q \<and>
             (\<forall>i<shape0 p. item cur i = item p i) \<and>
             (\<forall>i<shape0 q. item cur (shape0 p + i) = item q i) \<and>
             P R cur = Inr (m1, m2, dis) \<and> shape0 m2 = shape0 p + shape0 q \<and>
             map_of ap c = Some a \<and> map_of ai c = Some b \<and>
             same_shape a p \<and> same_shape b q \<and>
             (\<forall>i<shape0 p. item a i = item m2 i) \<and>
             (\<forall>i<shape0 q. item b i = item m2 (shape0 p + i)))"
  proof (intro ballI impI)
    fix c
    assume "c \<in> fst ` set person_coords" and ne: "c \<noteq> r"
    then have "c \<in> set (map fst person_coords)" by simp
    from align_chains_entry [OF lp this ne] obtain p q cur m1 m2 dis where
      p: "map_of person_coords c = Some p" and q: "map_of item_coords c = Some q"
      and v: "vstack p q = Inr cur" and P: "P R cur = Inr (m1, m2, dis)"
      and oa: "map_of ap c = Some (rows_upto (shape0 pr) m2)"
      and ob: "map_of ai c = Some (rows_from (shape0 pr) m2)"
      by blast
    from n p have np: "shape0 p = shape0 pr" by blast
    note s = split_shapes [OF k v P np]
    note w = vstack_rows [OF v]
    from k P have "same_shape m2 cur" unfolding keeps_shape_def by blast
    with w(1) have m2: "shape0 m2 = shape0 p + shape0 q" by (simp add: same_shape_def)
    have ia: "\<forall>i<shape0 p. item (rows_upto (shape0 pr) m2) i = item m2 i"
      by (simp add: rows_upto_def)
    have ib: "\<forall>i<shape0 q. item (rows_from (shape0 pr) m2) i = item m2 (shape0 p + i)"
      by (simp add: rows_from_def np add.commute)
    show "\<exists>p q cur m1 m2 dis a b.
             map_of person_coords c = Some p \<and> map_of item_coords c = Some q \<and>
             vstack p q = Inr cur \<and> shape0 cur = shape0 p + shape0 q \<and>
             (\<forall>i<shape0 p. item cur i = item p i) \<and>
             (\<forall>i<shape0 q. item cur (shape0 p + i) = item q i) \<and>
             P R cur = Inr (m1, m2, dis) \<and> shape0 m2 = shape0 p + shape0 q \<and>
             map_of ap c = Some a \<and> map_of ai c = Some b \<and>
             same_shape a p \<and> same_shape b q \<and>
             (\<forall>i<shape0 p. item a i = item m2 i) \<and>
             (\<forall>i<shape0 q. item b i = item m2 (shape0 p + i))"
      by (intro exI conjI) (rule p q v w(1) w(4) w(5) P m2 oa ob s ia ib)+
  qed
  have c: "\<exists>pr ir R.
       map_of person_coords r = Some pr \<and> map_of item_coords r = Some ir \<and>
       vstack pr ir = Inr R \<and>
       (\<forall>c\<in>fst ` set person_coords. c \<noteq> r \<longrightarrow>
          (\<exists>p q cur m1 m2 dis a b.
             map_of person_coords c = Some p \<and> map_of item_coords c = Some q \<and>
             vstack p q = Inr cur \<and> shape0 cur = shape0 p + shape0 q \<and>
             (\<forall>i<shape0 p. item cur i = item p i) \<and>
             (\<forall>i<shape0 q. item cur (shape0 p + i) = item q i) \<and>
             P R cur = Inr (m1, m2, dis) \<and> shape0 m2 = shape0 p + shape0 q \<and>
             map_of ap c = Some a \<and> map_of ai c = Some b \<and>
             same_shape a p \<and> same_shape b q \<and>
             (\<forall>i<shape0 p. item a i = item m2 i) \<and>
             (\<forall>i<shape0 q. item b i = item m2 (shape0 p + i))))"
    by (intro exI conjI) (rule pr ir R b)+
  show ?thesis by (rule conjI [OF conjunct1 [OF a] conjI [OF conjunct2 [OF a] c]])
qed

theorem align_preserves_shapes_witness:
  "\<exists>ap ai a b.
     align_latent_spaces perfect_fit
       [(1, array2 [[0, 0], [1, 0]]), (2, array2 [[1, 0], [1, 1]])]
       [(1, array2 [[0, 1], [1, 1], [2, 3]]), (2, array2 [[0, 0], [0, 1], [3, 3]])] 1
       = Inr (ap, ai) \<and>
     map_of ap 2 = Some a \<and> map_of ai 2 = Some b \<and>
     shape0 a = 2 \<and> shape1 a = 2 \<and> shape0 b = 3 \<and> shape1 b = 2 \<and>
     item a 1 0 = 1 \<and> item b 0 1 = 1 \<and> item b 2 1 = 3"
proof -
  let ?p1 = "array2 [[0, 0], [1, 0::real]]"
  let ?p2 = "array2 [[1, 0], [1, 1::real]]"
  let ?q1 = "array2 [[0, 1], [1, 1], [2, 3::real]]"
  let ?q2 = "array2 [[0, 0], [0, 1], [3, 3::real]]"
  let ?pc = "[(1::real, ?p1), (2, ?p2)]"
  let ?ic = "[(1::real, ?q1), (2, ?q2)]"
  have ex: "\<exists>ap ai. align_latent_spaces perfect_fit ?pc ?ic 1 = Inr (ap, ai)"
    by (simp add: align_latent_spaces_def lookup_def vstack_def array2_def perfect_fit_def
        same_shape_def)
  then obtain ap ai where r: "align_latent_spaces perfect_fit ?pc ?ic 1 = Inr (ap, ai)"
    by blast
  have sp: "\<forall>c c' m m'. map_of ?pc c = Some m \<and> map_of ?pc c' = Some m' \<longrightarrow> same_shape m m'"
    by (simp add: same_shape_def array2_def)
  have si: "\<forall>c c' m m'. map_of ?ic c = Some m \<and> map_of ?ic c' = Some m' \<longrightarrow> same_shape m m'"
    by (simp add: same_shape_def array2_def)
  note t = align_preserves_shapes [OF keeps_shape_perfect_fit sp si r]
  from conjunct2 [OF conjunct2 [OF t]] obtain pr ir R where
    pr: "map_of ?pc 1 = Some pr" and ir: "map_of ?ic 1 = Some ir" and R: "vstack pr ir = Inr R"
    and all: "\<forall>c\<in>fst ` set ?pc. c \<noteq> 1 \<longrightarrow>
          (\<exists>p q cur m1 m2 dis a b.
             map_of ?pc c = Some p \<and> map_of ?ic c = Some q \<and>
             vstack p q = Inr cur \<and> shape0 cur = shape0 p + shape0 q \<and>
             (\<forall>i<shape0 p. item cur i = item p i) \<and>
             (\<forall>i<shape0 q. item cur (shape0 p + i) = item q i) \<and>
             perfect_fit R cur = Inr (m1, m2, dis) \<and> shape0 m2 = shape0 p + shape0 q \<and>
             map_of ap c = Some a \<and> map_of ai c = Some b \<and>
             same_shape a p \<and> same_shape b q \<and>
             (\<forall>i<shape0 p. item a i = item m2 i) \<and>
             (\<forall>i<shape0 q. item b i = item m2 (shape0 p + i)))"
    by blast
  have "(2::real) \<in> fst ` set ?pc" and "(2::real) \<noteq> 1" by simp_all
  from all [rule_format, OF this] obtain p q cur m1 m2 dis a b where
    p: "map_of ?pc 2 = Some p" and q: "map_of ?ic 2 = Some q"
    and P: "perfect_fit R cur = Inr (m1, m2, dis)"
    and oa: "map_of ap 2 = Some a" and ob: "map_of ai 2 = Some b"
    and sa: "same_shape a p" and sb: "same_shape b q"
    and ia: "\<forall>i<shape0 p. item a i = item m2 i"
    and ib: "\<forall>i<shape0 q. item b i = item m2 (shape0 p + i)"
    by blast
  from pr ir have pr': "pr = ?p1" and ir': "ir = ?q1" by simp_all
  from p q have p': "p = ?p2" and q': "q = ?q2" by simp_all
  from P have m2: "m2 = R" by (auto simp: perfect_fit_def split: if_splits)
  note w = vstack_rows [OF R]
  have "1 < shape0 pr" by (simp add: pr' array2_def)
  from w(4) [rule_format, OF this] have R1: "item R 1 = item ?p1 1" by (simp add: pr')
  have "0 < shape0 ir" and "2 < shape0 ir" by (simp_all add: ir' array2_def)
  from w(5) [rule_format, OF this(1)] w(5) [rule_format, OF this(2)]
  have R2: "item R 2 = item ?q1 0" and R4: "item R 4 = item ?q1 2"
    by (simp_all add: pr' ir' array2_def eval_nat_numeral)
  from sa sb have sh: "shape0 a = 2 \<and> shape1 a = 2 \<and> shape0 b = 3 \<and> shape1 b = 2"
    by (simp add: p' q' same_shape_def array2_def)
  have "1 < shape0 p" by (simp add: p' array2_def)
  from ia [rule_format, OF this] R1 have a1: "item a 1 0 = 1" by (simp add: m2 array2_def)
  have "0 < shape0 q" and "2 < shape0 q" by (simp_all add: q' array2_def)
  from ib [rule_format, OF this(1)] ib [rule_format, OF this(2)]
  have "item b 0 = item R 2" and "item b 2 = item R 4"
    by (simp_all add: p' m2 array2_def eval_nat_numeral)
  with R2 R4 have b0: "item b 0 1 = 1" and b2: "item b 2 1 = 3"
    by (simp_all add: array2_def)
  from r oa ob sh a1 b0 b2 show ?thesis by blast
qed

text \<open>
  C8. When the reference chain is missing from the person dictionary or from the item
  dictionary, \<^verbatim>\<open>align_latent_spaces\<close> raises the \<^verbatim>\<open>KeyError\<close> of the lookup of the
  reference chain and returns no dictionaries.
\<close>

theorem missing_reference_chain:
  assumes "r \<notin> fst ` set person_coords \<or> r \<notin> fst ` set item_coords"
  shows "align_latent_spaces P person_coords item_coords r = Inl (KeyError (Chain r))"
proof -
  from assms have "map_of person_coords r = None \<or> map_of item_coords r = None"
    by (simp add: map_of_eq_None_iff)
  then show ?thesis
    by (auto simp: align_latent_spaces_def lookup_def split: option.splits)
qed

theorem missing_reference_chain_witness:
  "(3::real) \<notin> fst ` set [(1::real, zeros 2 2)] \<and>
   align_latent_spaces perfect_fit [(1, zeros 2 2)] [(1, zeros 2 2), (3, zeros 2 2)] 3
     = Inl (KeyError (Chain 3))"
proof -
  have h: "(3::real) \<notin> fst ` set [(1::real, zeros 2 2)]" by simp
  then have "(3::real) \<notin> fst ` set [(1::real, zeros 2 2)] \<or>
      (3::real) \<notin> fst ` set [(1::real, zeros 2 2), (3, zeros 2 2)]" by (rule disjI1)
  note t = missing_reference_chain [OF this, where P = perfect_fit]
  show ?thesis by (rule conjI [OF h t])
qed

text \<open>
  C9. A chain that only the item dictionary has is not noticed: the call below returns,
  although the two key sets differ.
\<close>

theorem item_only_chain_counterexample:
  "fst ` set [(1::real, zeros 1 1)] \<noteq> fst ` set [(1::real, zeros 1 1), (2, zeros 1 1)] \<and>
   align_latent_spaces (\<lambda>a b. Inl ValueError) [(1, zeros 1 1)] [(1, zeros 1 1), (2, zeros 1 1)] 1
     = Inr ([(1, zeros 1 1)], [(1, zeros 1 1)])"
  by (simp add: align_latent_spaces_def lookup_def vstack_def zeros_def)

text \<open>
  C9, as the code has it. A chain of the person dictionary that the item dictionary
  lacks makes \<^verbatim>\<open>align_latent_spaces\<close> raise an exception. When the lookups and the
  stacking of the reference chain succeed and the loop raises nothing for the chains
  that precede it in the person dictionary, the exception is the \<^verbatim>\<open>KeyError\<close> of the
  lookup of that chain in the item dictionary. When the function returns, both output
  dictionaries have exactly the chains of the person dictionary.
\<close>

theorem person_chain_without_items:
  "(c \<in> fst ` set person_coords \<and> c \<notin> fst ` set item_coords \<longrightarrow>
      (\<exists>e. align_latent_spaces P person_coords item_coords r = Inl e)) \<and>
   (map_of person_coords r = Some pr \<and> map_of item_coords r = Some ir \<and>
    vstack pr ir = Inr R \<and> map fst person_coords = pre @ c # post \<and>
    c \<notin> fst ` set item_coords \<and> (\<forall>x\<in>set pre. x = r \<or> aligns P person_coords item_coords R x) \<longrightarrow>
      align_latent_spaces P person_coords item_coords r = Inl (KeyError (Chain c))) \<and>
   (align_latent_spaces P person_coords item_coords r = Inr (ap, ai) \<longrightarrow>
      fst ` set ap = fst ` set person_coords \<and> fst ` set ai = fst ` set person_coords)"
proof (rule conjI [OF _ conjI]; rule impI)
  assume c: "c \<in> fst ` set person_coords \<and> c \<notin> fst ` set item_coords"
  show "\<exists>e. align_latent_spaces P person_coords item_coords r = Inl e"
  proof (cases "\<exists>p q R. map_of person_coords r = Some p \<and> map_of item_coords r = Some q \<and>
      vstack p q = Inr R")
    case True
    then obtain p q R where p: "map_of person_coords r = Some p"
      and q: "map_of item_coords r = Some q" and R: "vstack p q = Inr R" by blast
    from q have "r \<in> fst ` set item_coords" using map_of_None_keys [of item_coords r] by auto
    with c have ne: "c \<noteq> r" by blast
    from c have "c \<in> set (map fst person_coords)" and "map_of item_coords c = None"
      by (simp_all add: map_of_None_keys)
    from align_chains_missing [OF this(1) ne this(2)] p q R show ?thesis
      by (simp add: align_latent_spaces_def lookup_def)
  next
    case False
    then show ?thesis
      by (auto simp: align_latent_spaces_def lookup_def split: option.splits sum.splits)
  qed
next
  assume h: "map_of person_coords r = Some pr \<and> map_of item_coords r = Some ir \<and>
    vstack pr ir = Inr R \<and> map fst person_coords = pre @ c # post \<and>
    c \<notin> fst ` set item_coords \<and> (\<forall>x\<in>set pre. x = r \<or> aligns P person_coords item_coords R x)"
  then have pr: "map_of person_coords r = Some pr" and ir: "map_of item_coords r = Some ir"
    and R: "vstack pr ir = Inr R" and ks: "map fst person_coords = pre @ c # post"
    and ci: "c \<notin> fst ` set item_coords"
    and pre: "\<forall>x\<in>set pre. x = r \<or> aligns P person_coords item_coords R x"
    by simp_all
  from ir have "r \<in> fst ` set item_coords" using map_of_None_keys [of item_coords r] by auto
  with ci have ne: "c \<noteq> r" by blast
  from ks have "c \<in> fst ` set person_coords" by (metis in_set_conv_decomp set_map)
  then have cp: "map_of person_coords c \<noteq> None" by (simp add: map_of_None_keys)
  from ci have cn: "map_of item_coords c = None" by (simp add: map_of_None_keys)
  from align_chains_first_missing [OF pre ne cp cn] pr ir R ks
  show "align_latent_spaces P person_coords item_coords r = Inl (KeyError (Chain c))"
    by (simp add: align_latent_spaces_def lookup_def)
next
  assume al: "align_latent_spaces P person_coords item_coords r = Inr (ap, ai)"
  then obtain p q R where p: "map_of person_coords r = Some p"
    and lp: "align_chains P person_coords item_coords r R (shape0 p) (map fst person_coords)
       ([(r, p)], [(r, q)]) = Inr (ap, ai)"
    by (auto simp: align_latent_spaces_def lookup_def split: sum.splits option.splits)
  from p have "r \<in> fst ` set person_coords" using map_of_None_keys [of person_coords r] by auto
  with align_chains_keys [OF lp]
  show "fst ` set ap = fst ` set person_coords \<and> fst ` set ai = fst ` set person_coords"
    by auto
qed

theorem person_chain_without_items_witness:
  "align_latent_spaces perfect_fit
     [(1, zeros 1 1), (2, zeros 1 1), (3, zeros 1 1)] [(1, zeros 1 1), (2, zeros 1 1)] 1
     = Inl (KeyError (Chain 3)) \<and>
   (\<exists>e. align_latent_spaces perfect_fit [(1, zeros 1 1), (2, zeros 1 1)] [(1, zeros 1 1)] 1 = Inl e) \<and>
   (\<exists>ap ai. align_latent_spaces perfect_fit [(1, zeros 1 1)] [(1, zeros 1 1), (2, zeros 1 1)] 1
       = Inr (ap, ai) \<and> fst ` set ai = {1})"
proof -
  let ?z = "zeros 1 1 :: real ndarray"
  let ?pc = "[(1::real, ?z), (2, ?z), (3, ?z)]"
  let ?ic = "[(1::real, ?z), (2, ?z)]"
  obtain R where R: "vstack ?z ?z = Inr R" by (simp add: vstack_def)
  have al: "aligns perfect_fit ?pc ?ic R 2"
    unfolding aligns_def using R by (simp add: perfect_fit_def same_shape_def)
  have h: "map_of ?pc 1 = Some ?z \<and> map_of ?ic 1 = Some ?z \<and> vstack ?z ?z = Inr R \<and>
      map fst ?pc = [1, 2] @ 3 # [] \<and> 3 \<notin> fst ` set ?ic \<and>
      (\<forall>x\<in>set [1, 2]. x = 1 \<or> aligns perfect_fit ?pc ?ic R x)"
    using R al by simp
  note t0 = person_chain_without_items
    [where c = 3 and person_coords = ?pc and item_coords = ?ic and P = perfect_fit and r = 1
      and pr = ?z and ir = ?z and R = R and pre = "[1, 2]" and post = "[]",
      THEN conjunct2, THEN conjunct1, rule_format, OF h]
  have a: "(2::real) \<in> fst ` set [(1::real, zeros 1 1), (2, zeros 1 1)] \<and>
      (2::real) \<notin> fst ` set [(1::real, zeros 1 1)]" by simp
  have b: "align_latent_spaces perfect_fit [(1, zeros 1 1)] [(1, zeros 1 1), (2, zeros 1 1)] 1
      = Inr ([(1, zeros 1 1)], [(1, zeros 1 1)])"
    by (simp add: align_latent_spaces_def lookup_def vstack_def zeros_def)
  note t1 = person_chain_without_items
    [where c = 2 and person_coords = "[(1, zeros 1 1), (2, zeros 1 1)]"
      and item_coords = "[(1, zeros 1 1)]" and P = perfect_fit and r = 1, THEN conjunct1, rule_format, OF a]
  note t2 = person_chain_without_items
    [where person_coords = "[(1, zeros 1 1)]"
      and item_coords = "[(1, zeros 1 1), (2, zeros 1 1)]" and P = perfect_fit and r = 1,
      THEN conjunct2, THEN conjunct2, rule_format, OF b, THEN conjunct2]
  from b t2 have "\<exists>ap ai. align_latent_spaces perfect_fit [(1, zeros 1 1)] [(1, zeros 1 1), (2, zeros 1 1)] 1
       = Inr (ap, ai) \<and> fst ` set ai = {1::real}"
    by simp
  with t0 t1 show ?thesis by (intro conjI)
qed

subsection \<open>Replacement\<close>

text \<open>
  C4. Let the dictionaries have distinct keys. In the table that
  \<^verbatim>\<open>create_aligned_draws_dataframe\<close> returns, every row of a chain \<open>c\<close> of the person
  dictionary has, in every column \<^verbatim>\<open>xi[i,d]\<close> of the table with \<open>i\<close> a row of the
  chain's matrix and \<open>d\<close> in \<open>1..D\<close>, the value \<open>[i-1, d-1]\<close> of that matrix,
  whatever the row held before; likewise for the item dictionary and the columns
  \<^verbatim>\<open>zt_centered[i,d]\<close>. A column that the table does not have raises nothing: the
  function returns whenever the chain column exists and every column that does exist
  has its dimension inside the matrix.
\<close>

theorem rewrite_overwrites:
  assumes o: "original_draws < length h"
    and dp: "distinct (map fst ap)" and di: "distinct (map fst ai)"
  shows "(\<forall>h' new. create_aligned_draws_dataframe h original_draws ap ai D = (h', Inr new) \<longrightarrow>
       (\<forall>c coords i d k. (c, coords) \<in> set ap \<and> i < shape0 coords \<and> d < D \<and>
            param_name ''xi'' i d \<in> set (columns (h' ! new)) \<and>
            k < length (rows (h' ! new)) \<and> (rows (h' ! new) ! k) ''chain__'' = c \<longrightarrow>
            (rows (h' ! new) ! k) (param_name ''xi'' i d) = item coords i d) \<and>
       (\<forall>c coords i d k. (c, coords) \<in> set ai \<and> i < shape0 coords \<and> d < D \<and>
            param_name ''zt_centered'' i d \<in> set (columns (h' ! new)) \<and>
            k < length (rows (h' ! new)) \<and> (rows (h' ! new) ! k) ''chain__'' = c \<longrightarrow>
            (rows (h' ! new) ! k) (param_name ''zt_centered'' i d) = item coords i d)) \<and>
     (''chain__'' \<in> set (columns (h ! original_draws)) \<and>
      (\<forall>(c, coords)\<in>set ap. \<forall>i<shape0 coords. \<forall>d<D.
           param_name ''xi'' i d \<in> set (columns (h ! original_draws)) \<longrightarrow> d < shape1 coords) \<and>
      (\<forall>(c, coords)\<in>set ai. \<forall>i<shape0 coords. \<forall>d<D.
           param_name ''zt_centered'' i d \<in> set (columns (h ! original_draws))
             \<longrightarrow> d < shape1 coords) \<longrightarrow>
      (\<exists>h'. create_aligned_draws_dataframe h original_draws ap ai D = (h', Inr (length h))))"
proof (intro conjI allI impI)
  fix h' new c coords i d k
  assume cr: "create_aligned_draws_dataframe h original_draws ap ai D = (h', Inr new)"
    and hyp: "(c, coords) \<in> set ap \<and> i < shape0 coords \<and> d < D \<and>
            param_name ''xi'' i d \<in> set (columns (h' ! new)) \<and>
            k < length (rows (h' ! new)) \<and> (rows (h' ! new) ! k) ''chain__'' = c"
  let ?cols = "columns (h ! original_draws)"
  let ?r = "rows (h ! original_draws) ! k"
  let ?r1 = "chains_row ?cols ''xi'' ap D ?r"
  note t = rewritten_table [OF o cr]
  from hyp t have k: "k < length (rows (h ! original_draws))" by simp
  note row = rewritten_row [OF o cr k]
  from hyp row have rc: "?r ''chain__'' = c" by (simp add: chains_row_chain)
  have "?r1 (param_name ''xi'' i d) = item coords i d"
    by (rule chains_row_hit [OF dp, where c = c]) (use hyp t rc in simp_all)
  moreover have "(rows (h' ! new) ! k) (param_name ''xi'' i d) = ?r1 (param_name ''xi'' i d)"
    unfolding row by (rule chains_row_other) (simp add: param_name_xi_zt)
  ultimately show "(rows (h' ! new) ! k) (param_name ''xi'' i d) = item coords i d" by simp
next
  fix h' new c coords i d k
  assume cr: "create_aligned_draws_dataframe h original_draws ap ai D = (h', Inr new)"
    and hyp: "(c, coords) \<in> set ai \<and> i < shape0 coords \<and> d < D \<and>
            param_name ''zt_centered'' i d \<in> set (columns (h' ! new)) \<and>
            k < length (rows (h' ! new)) \<and> (rows (h' ! new) ! k) ''chain__'' = c"
  let ?cols = "columns (h ! original_draws)"
  let ?r = "rows (h ! original_draws) ! k"
  let ?r1 = "chains_row ?cols ''xi'' ap D ?r"
  note t = rewritten_table [OF o cr]
  from hyp t have k: "k < length (rows (h ! original_draws))" by simp
  note row = rewritten_row [OF o cr k]
  from hyp row have rc: "?r1 ''chain__'' = c" by (simp add: chains_row_chain)
  have "chains_row ?cols ''zt_centered'' ai D ?r1 (param_name ''zt_centered'' i d)
      = item coords i d"
    by (rule chains_row_hit [OF di, where c = c]) (use hyp t rc in simp_all)
  then show "(rows (h' ! new) ! k) (param_name ''zt_centered'' i d) = item coords i d"
    by (simp add: row)
next
  assume "''chain__'' \<in> set (columns (h ! original_draws)) \<and>
      (\<forall>(c, coords)\<in>set ap. \<forall>i<shape0 coords. \<forall>d<D.
           param_name ''xi'' i d \<in> set (columns (h ! original_draws)) \<longrightarrow> d < shape1 coords) \<and>
      (\<forall>(c, coords)\<in>set ai. \<forall>i<shape0 coords. \<forall>d<D.
           param_name ''zt_centered'' i d \<in> set (columns (h ! original_draws))
             \<longrightarrow> d < shape1 coords)"
  then show "\<exists>h'. create_aligned_draws_dataframe h original_draws ap ai D = (h', Inr (length h))"
    by (intro create_ok [OF o]) simp_all
qed

theorem rewrite_overwrites_witness:
  "\<exists>h' new. create_aligned_draws_dataframe [demo_draws] 0 demo_person demo_item 2
       = (h', Inr new) \<and>
     (rows (h' ! new) ! 1) ''xi[1,1]'' = 12 \<and>
     (rows (h' ! new) ! 1) ''zt_centered[1,1]'' = 22"
proof -
  have o: "0 < length [demo_draws]" by simp
  have dp: "distinct (map fst demo_person)" and di: "distinct (map fst demo_item)"
    by (simp_all add: demo_person_def demo_item_def)
  note T = rewrite_overwrites [of 0 "[demo_draws]" demo_person demo_item 2, OF o dp di]
  have pre: "''chain__'' \<in> set (columns ([demo_draws] ! 0)) \<and>
      (\<forall>(c, coords)\<in>set demo_person. \<forall>i<shape0 coords. \<forall>d<2.
           param_name ''xi'' i d \<in> set (columns ([demo_draws] ! 0)) \<longrightarrow> d < shape1 coords) \<and>
      (\<forall>(c, coords)\<in>set demo_item. \<forall>i<shape0 coords. \<forall>d<2.
           param_name ''zt_centered'' i d \<in> set (columns ([demo_draws] ! 0))
             \<longrightarrow> d < shape1 coords)"
    by (simp add: demo_person_def demo_item_def demo_draws_def array2_def)
  from mp [OF conjunct2 [OF T] pre] obtain h' where
    cr: "create_aligned_draws_dataframe [demo_draws] 0 demo_person demo_item 2
       = (h', Inr (length [demo_draws]))" ..
  let ?new = "length [demo_draws]"
  note P = mp [OF spec [OF spec [OF conjunct1 [OF T]]] cr]
  have k: "(1::nat) < 3" by simp
  note R = demo_row [OF cr k]
  from R have
    "(2, array2 [[12, 13]]) \<in> set demo_person \<and> 0 < shape0 (array2 [[12, 13]]) \<and> (0::nat) < 2 \<and>
        param_name ''xi'' 0 0 \<in> set (columns (h' ! ?new)) \<and>
        1 < length (rows (h' ! ?new)) \<and> (rows (h' ! ?new) ! 1) ''chain__'' = 2"
    by (simp add: demo_person_def demo_draws_def array2_def row_of_def)
  from conjunct1 [OF P, rule_format, OF this]
  have a: "(rows (h' ! ?new) ! 1) ''xi[1,1]'' = 12"
    by (simp add: name_xi_1_1 array2_def)
  from R have
    "(2, array2 [[22, 23]]) \<in> set demo_item \<and> 0 < shape0 (array2 [[22, 23]]) \<and> (0::nat) < 2 \<and>
        param_name ''zt_centered'' 0 0 \<in> set (columns (h' ! ?new)) \<and>
        1 < length (rows (h' ! ?new)) \<and> (rows (h' ! ?new) ! 1) ''chain__'' = 2"
    by (simp add: demo_item_def demo_draws_def array2_def row_of_def)
  from conjunct2 [OF P, rule_format, OF this]
  have b: "(rows (h' ! ?new) ! 1) ''zt_centered[1,1]'' = 22"
    by (simp add: name_zt_1_1 array2_def)
  from cr a b show ?thesis by (intro exI conjI)
qed

text \<open>
  C5. The function leaves every table that existed before the call as it was, the
  table it was given among them, also when it raises. The table it returns is a new
  object with the columns and the number of rows of the input; the chain column and
  every column whose label is neither \<^verbatim>\<open>xi[i,d]\<close> nor \<^verbatim>\<open>zt_centered[i,d]\<close> hold the
  values of the input.
\<close>

theorem rewrite_copies:
  assumes o: "original_draws < length h"
    and cr: "create_aligned_draws_dataframe h original_draws ap ai D = (h', res)"
  shows "(\<forall>r<length h. h' ! r = h ! r) \<and>
    (\<forall>new. res = Inr new \<longrightarrow>
       new = length h \<and>
       columns (h' ! new) = columns (h ! original_draws) \<and>
       length (rows (h' ! new)) = length (rows (h ! original_draws)) \<and>
       (\<forall>k<length (rows (h ! original_draws)).
          (rows (h' ! new) ! k) ''chain__'' = (rows (h ! original_draws) ! k) ''chain__'' \<and>
          (\<forall>name. (\<forall>i d. name \<noteq> param_name ''xi'' i d \<and> name \<noteq> param_name ''zt_centered'' i d)
             \<longrightarrow> (rows (h' ! new) ! k) name = (rows (h ! original_draws) ! k) name)))"
proof (intro conjI allI impI)
  from create_effect [OF o cr] show "\<And>r. r < length h \<Longrightarrow> h' ! r = h ! r" by simp
next
  fix new
  assume "res = Inr new"
  with cr have c: "create_aligned_draws_dataframe h original_draws ap ai D = (h', Inr new)"
    by simp
  note t = rewritten_table [OF o c]
  from t show "new = length h" and "columns (h' ! new) = columns (h ! original_draws)"
    and "length (rows (h' ! new)) = length (rows (h ! original_draws))" by simp_all
  fix k
  assume k: "k < length (rows (h ! original_draws))"
  note row = rewritten_row [OF o c k]
  show "(rows (h' ! new) ! k) ''chain__'' = (rows (h ! original_draws) ! k) ''chain__''"
    by (simp add: row chains_row_chain)
  fix name
  assume "\<forall>i d. name \<noteq> param_name ''xi'' i d \<and> name \<noteq> param_name ''zt_centered'' i d"
  then show "(rows (h' ! new) ! k) name = (rows (h ! original_draws) ! k) name"
    by (simp add: row chains_row_other)
qed

theorem rewrite_copies_witness:
  "\<exists>h' new. create_aligned_draws_dataframe [demo_draws] 0 demo_person demo_item 2
       = (h', Inr new) \<and>
     h' ! 0 = demo_draws \<and> new = 1 \<and> columns (h' ! new) = columns demo_draws \<and>
     length (rows (h' ! new)) = 3 \<and> (rows (h' ! new) ! 0) ''lp__'' = - 3"
proof -
  have o: "0 < length [demo_draws]" by simp
  from demo_ok obtain h' where
    cr: "create_aligned_draws_dataframe [demo_draws] 0 demo_person demo_item 2
       = (h', Inr (length [demo_draws]))" ..
  let ?new = "length [demo_draws]"
  note T = rewrite_copies [OF o cr]
  from conjunct1 [OF T] have a: "h' ! 0 = demo_draws" by simp
  note N = mp [OF spec [OF conjunct2 [OF T]] refl]
  from N have b: "columns (h' ! ?new) = columns demo_draws"
    and c: "length (rows (h' ! ?new)) = 3"
    by (simp_all add: demo_draws_def)
  have nm: "\<forall>i d. ''lp__'' \<noteq> param_name ''xi'' i d \<and> ''lp__'' \<noteq> param_name ''zt_centered'' i d"
    by (simp add: not_param_name)
  have k: "0 < length (rows ([demo_draws] ! 0))" by (simp add: demo_draws_def)
  note C = N [THEN conjunct2, THEN conjunct2, THEN conjunct2, rule_format, OF k, THEN conjunct2,
      rule_format, OF nm [rule_format]]
  then have d: "(rows (h' ! ?new) ! 0) ''lp__'' = - 3"
    by (simp add: demo_draws_def row_of_def)
  have e: "?new = 1" by simp
  from cr a e b c d show ?thesis by (intro exI conjI)
qed

text \<open>
  C10. A row whose chain is a key of neither dictionary is, in the table returned, the
  row of the input: every cell, the coordinate columns included.
\<close>

theorem rewrite_other_chains:
  assumes o: "original_draws < length h"
    and cr: "create_aligned_draws_dataframe h original_draws ap ai D = (h', Inr new)"
    and k: "k < length (rows (h ! original_draws))"
    and c: "(rows (h ! original_draws) ! k) ''chain__'' \<notin> fst ` set ap \<union> fst ` set ai"
  shows "rows (h' ! new) ! k = rows (h ! original_draws) ! k"
proof -
  from c have "(rows (h ! original_draws) ! k) ''chain__'' \<notin> fst ` set ap"
    and "(rows (h ! original_draws) ! k) ''chain__'' \<notin> fst ` set ai" by simp_all
  then show ?thesis
    by (simp add: rewritten_row [OF o cr k] chains_row_untouched)
qed

theorem rewrite_other_chains_witness:
  "\<exists>h' new. create_aligned_draws_dataframe [demo_draws] 0 demo_person demo_item 2
       = (h', Inr new) \<and>
     rows (h' ! new) ! 2 = rows demo_draws ! 2"
proof -
  have o: "0 < length [demo_draws]" by simp
  from demo_ok obtain h' where
    cr: "create_aligned_draws_dataframe [demo_draws] 0 demo_person demo_item 2
       = (h', Inr (length [demo_draws]))" ..
  have k: "2 < length (rows ([demo_draws] ! 0))" by (simp add: demo_draws_def)
  have c: "(rows ([demo_draws] ! 0) ! 2) ''chain__'' \<notin> fst ` set demo_person \<union> fst ` set demo_item"
    by (simp add: demo_draws_def demo_person_def demo_item_def row_of_def)
  from rewrite_other_chains [OF o cr k c]
  have "rows (h' ! length [demo_draws]) ! 2 = rows demo_draws ! 2" by simp
  with cr show ?thesis by (intro exI conjI)
qed

end
